theory Spec2Isabelle
  imports Main "HOL-Library.Multiset"
begin

section \<open>Go values: errors and panics\<close>

text \<open>
  The errors that \<^verbatim>\<open>dblist.go\<close> returns. The payload is the message of the
  underlying error of the operating system or of the JSON package.
\<close>

datatype error =
    IndexOutOfRange
  | FailedToCreateDirectory string
  | MarshalError string
  | CreateError string
  | WriteError string
  | FailedToReadFromDisk string
  | FailedToUnmarshal string

text \<open>A Go call either returns or raises a runtime panic.\<close>

datatype 'r outcome = Returns 'r | Panics

text \<open>
  Indexing a slice, \<^verbatim>\<open>xs[i]\<close>: Go panics when the index is negative or not below
  the length.
\<close>

definition slice_index :: "'e list \<Rightarrow> int \<Rightarrow> 'e outcome" where
  "slice_index xs i = (if 0 \<le> i \<and> i < int (length xs) then Returns (xs ! nat i) else Panics)"

section \<open>The collaborators: filesystem, paths, encoding\<close>

text \<open>
  Modelled from the spec: the filesystem collaborator (Go's package \<^verbatim>\<open>os\<close>) is not
  code of this repository. Its state is the content of every file and the set of
  directories; the remaining fields say which calls the environment makes fail, and with
  which message, so that every error branch of the code can be taken.
\<close>

record fsys =
  files :: "string \<rightharpoonup> string"
  dirs :: "string set"
  mkdir_err :: "string \<Rightarrow> string option"
  create_err :: "string \<Rightarrow> string option"
  write_err :: "string \<Rightarrow> (nat \<times> string) option"
  close_err :: "string \<Rightarrow> string option"
  read_err :: "string \<Rightarrow> string option"

definition os_MkdirAll :: "string \<Rightarrow> fsys \<Rightarrow> string option \<times> fsys" where
  "os_MkdirAll path fs =
     (case mkdir_err fs path of
        Some e \<Rightarrow> (Some e, fs)
      | None \<Rightarrow> (None, fs\<lparr>dirs := insert path (dirs fs)\<rparr>))"

text \<open>\<^verbatim>\<open>os.Create\<close> creates the file or truncates it.\<close>

definition os_Create :: "string \<Rightarrow> fsys \<Rightarrow> string option \<times> fsys" where
  "os_Create path fs =
     (case create_err fs path of
        Some e \<Rightarrow> (Some e, fs)
      | None \<Rightarrow> (None, fs\<lparr>files := (files fs)(path \<mapsto> [])\<rparr>))"

text \<open>
  \<^verbatim>\<open>file.Write\<close> on the file just created: a failing write leaves the first
  \<open>n\<close> bytes behind.
\<close>

definition file_Write :: "string \<Rightarrow> string \<Rightarrow> fsys \<Rightarrow> string option \<times> fsys" where
  "file_Write path data fs =
     (case write_err fs path of
        Some (n, e) \<Rightarrow> (Some e, fs\<lparr>files := (files fs)(path \<mapsto> take n data)\<rparr>)
      | None \<Rightarrow> (None, fs\<lparr>files := (files fs)(path \<mapsto> data)\<rparr>))"

definition file_Close :: "string \<Rightarrow> fsys \<Rightarrow> string option" where
  "file_Close path fs = close_err fs path"

definition os_ReadFile :: "string \<Rightarrow> fsys \<Rightarrow> string + string" where
  "os_ReadFile path fs =
     (case read_err fs path of
        Some e \<Rightarrow> Inl e
      | None \<Rightarrow>
          (case files fs path of
             None \<Rightarrow> Inl ''no such file or directory''
           | Some data \<Rightarrow> Inr data))"

text \<open>
  Modelled from the spec: the encode/decode collaborator (Go's \<^verbatim>\<open>encoding/json\<close> at
  the element type \<open>T\<close>). \<open>zero_value\<close> is what \<^verbatim>\<open>var item T\<close> holds;
  \<open>unmarshal data item\<close> is \<^verbatim>\<open>json.Unmarshal(data, &item)\<close>: the item afterwards
  and the error.
\<close>

record 'a codec =
  zero_value :: 'a
  marshal :: "'a \<Rightarrow> string + string"
  unmarshal :: "string \<Rightarrow> 'a \<Rightarrow> 'a \<times> string option"

text \<open>
  Modelled from the spec: \<^verbatim>\<open>fmt.Sprintf("%d", n)\<close> for \<open>n \<ge> 0\<close>, the decimal
  digits of \<open>n\<close>.
\<close>

definition digit_char :: "nat \<Rightarrow> char" where
  "digit_char k = ''0123456789'' ! k"

function fmt_d :: "nat \<Rightarrow> string" where
  "fmt_d n = (if n < 10 then [digit_char n] else fmt_d (n div 10) @ [digit_char (n mod 10)])"
  by pat_completeness auto
termination
  by (relation "measure id") auto

declare fmt_d.simps [simp del]

text \<open>
  Modelled from the spec: \<^verbatim>\<open>strings.Join\<close>, and \<^verbatim>\<open>filepath.Clean\<close>,
  \<^verbatim>\<open>filepath.Join\<close> and \<^verbatim>\<open>filepath.Dir\<close> of Go's standard library on a system
  whose separator is \<open>/\<close>. \<open>Clean\<close> drops empty and \<open>.\<close> elements, and
  lets \<open>..\<close> remove the element before it.
\<close>

fun strings_Join :: "string list \<Rightarrow> string \<Rightarrow> string" where
  "strings_Join [] sep = []"
| "strings_Join [e] sep = e"
| "strings_Join (e # es) sep = e @ sep @ strings_Join es sep"

fun split_path :: "string \<Rightarrow> string list" where
  "split_path [] = [[]]"
| "split_path (ch # s) =
     (if ch = CHR ''/'' then [] # split_path s
      else (case split_path s of
              [] \<Rightarrow> [[ch]]
            | w # ws \<Rightarrow> (ch # w) # ws))"

definition clean_step :: "bool \<Rightarrow> string \<Rightarrow> string list \<Rightarrow> string list" where
  "clean_step rooted elem out =
     (if elem = [] \<or> elem = ''.'' then out
      else if elem = ''..'' then
        (if out \<noteq> [] \<and> last out \<noteq> ''..'' then butlast out
         else if rooted then out
         else out @ [''..''])
      else out @ [elem])"

definition filepath_Clean :: "string \<Rightarrow> string" where
  "filepath_Clean path =
     (if path = [] then ''.''
      else
        (let rooted = (hd path = CHR ''/'');
             out = (if rooted then ''/'' else []) @
                   strings_Join (fold (clean_step rooted) (split_path path) []) ''/''
         in if out = [] then ''.'' else out))"

fun filepath_Join :: "string list \<Rightarrow> string" where
  "filepath_Join [] = []"
| "filepath_Join (e # es) =
     (if e = [] then filepath_Join es else filepath_Clean (strings_Join (e # es) ''/''))"

definition filepath_Dir :: "string \<Rightarrow> string" where
  "filepath_Dir path = filepath_Clean (rev (dropWhile (\<lambda>ch. ch \<noteq> CHR ''/'') (rev path)))"

section \<open>DBList\<close>

text \<open>
  The struct \<^verbatim>\<open>DBList[T]\<close>. The mutex is left out: the model runs one operation at
  a time. \<open>totalCount\<close> and the entries of \<open>sortedIndexes\<close> are Go \<^verbatim>\<open>int\<close>s
  that start at \<open>0\<close> and only grow by one, modelled as naturals; \<open>maxInMemory\<close>
  and the index given to \<open>Get\<close> come from the caller and are integers.
\<close>

record 'a DBList =
  memoryData :: "'a list"
  diskPath :: string
  maxInMemory :: int
  totalCount :: nat
  sortedIndexes :: "nat list"
  isSorted :: bool

text \<open>
  \<^verbatim>\<open>NewDBList\<close>: \<^verbatim>\<open>make([]T, 0, maxInMemory)\<close> panics on a negative capacity
  (running out of memory on a huge one is not modelled).
\<close>

definition NewDBList :: "string \<Rightarrow> int \<Rightarrow> 'a DBList outcome" where
  "NewDBList path maxInMem =
     (if maxInMem < 0 then Panics
      else Returns \<lparr>memoryData = [], diskPath = path, maxInMemory = maxInMem,
                    totalCount = 0, sortedIndexes = [], isSorted = True\<rparr>)"

text \<open>\<^verbatim>\<open>filePathForIndex\<close>: the path, the error, and the filesystem afterwards.\<close>

definition filePathForIndex ::
  "'a DBList \<Rightarrow> nat \<Rightarrow> bool \<Rightarrow> fsys \<Rightarrow> string \<times> error option \<times> fsys" where
  "filePathForIndex d index create fs =
     (let filePath = filepath_Join [diskPath d, fmt_d index @ ''.json'']
      in if create then
           (let dirPath = filepath_Dir filePath
            in case os_MkdirAll dirPath fs of
                 (Some e, fs') \<Rightarrow> ([], Some (FailedToCreateDirectory e), fs')
               | (None, fs') \<Rightarrow> (filePath, None, fs'))
         else (filePath, None, fs))"

text \<open>
  The \<^verbatim>\<open>else\<close> branch of \<^verbatim>\<open>Add\<close> (lines 45 to 63), which writes the item to
  disk and assigns no field of the list. The deferred \<^verbatim>\<open>file.Close()\<close> runs once the
  file was created; its result is not looked at.
\<close>

definition Add_spill :: "'a codec \<Rightarrow> 'a \<Rightarrow> 'a DBList \<Rightarrow> fsys \<Rightarrow> error option \<times> fsys" where
  "Add_spill c item d fs =
     (case filePathForIndex d (totalCount d) True fs of
        (_, Some err, fs1) \<Rightarrow> (Some err, fs1)
      | (filePath, None, fs1) \<Rightarrow>
          (case marshal c item of
             Inl err \<Rightarrow> (Some (MarshalError err), fs1)
           | Inr data \<Rightarrow>
               (case os_Create filePath fs1 of
                  (Some err, fs2) \<Rightarrow> (Some (CreateError err), fs2)
                | (None, fs2) \<Rightarrow>
                    (case file_Write filePath data fs2 of
                       (werr, fs3) \<Rightarrow>
                         (case file_Close filePath fs3 of
                            _ \<Rightarrow> (map_option WriteError werr, fs3))))))"

text \<open>
  \<^verbatim>\<open>Add\<close>: the error returned, the list and the filesystem afterwards. The list is
  returned on the error paths too, so that what an error leaves behind can be stated.
\<close>

definition Add :: "'a codec \<Rightarrow> 'a \<Rightarrow> 'a DBList \<times> fsys \<Rightarrow> error option \<times> 'a DBList \<times> fsys" where
  "Add c item s =
     (case s of (d, fs) \<Rightarrow>
        (case (if int (length (memoryData d)) < maxInMemory d
               then (None, d\<lparr>memoryData := memoryData d @ [item]\<rparr>, fs)
               else (case Add_spill c item d fs of (err, fs') \<Rightarrow> (err, d, fs')))
         of (Some err, d1, fs1) \<Rightarrow> (Some err, d1, fs1)
          | (None, d1, fs1) \<Rightarrow>
              (None,
               d1\<lparr>sortedIndexes := sortedIndexes d1 @ [totalCount d1],
                   totalCount := totalCount d1 + 1,
                   isSorted := False\<rparr>,
               fs1)))"

fun Adds :: "'a codec \<Rightarrow> 'a list \<Rightarrow> 'a DBList \<times> fsys \<Rightarrow> error option \<times> 'a DBList \<times> fsys" where
  "Adds c [] s = (None, s)"
| "Adds c (item # items) s =
     (case Add c item s of
        (Some err, s') \<Rightarrow> (Some err, s')
      | (None, s') \<Rightarrow> Adds c items s')"

definition Size :: "'a DBList \<Rightarrow> nat" where
  "Size d = totalCount d"

text \<open>
  \<^verbatim>\<open>retrieveFromDisk\<close> and \<^verbatim>\<open>getFromStorage\<close> return the item together with the
  error, as the Go functions do: \<^verbatim>\<open>Sort\<close> uses the item and drops the error.
\<close>

definition retrieveFromDisk :: "'a codec \<Rightarrow> fsys \<Rightarrow> 'a DBList \<Rightarrow> nat \<Rightarrow> 'a \<times> error option" where
  "retrieveFromDisk c fs d index =
     (let item = zero_value c
      in case filePathForIndex d index False fs of
           (_, Some err, _) \<Rightarrow> (item, Some err)
         | (filePath, None, _) \<Rightarrow>
             (case os_ReadFile filePath fs of
                Inl err \<Rightarrow> (item, Some (FailedToReadFromDisk err))
              | Inr data \<Rightarrow>
                  (case unmarshal c data item of
                     (item', Some err) \<Rightarrow> (item', Some (FailedToUnmarshal err))
                   | (item', None) \<Rightarrow> (item', None))))"

definition getFromStorage :: "'a codec \<Rightarrow> fsys \<Rightarrow> 'a DBList \<Rightarrow> nat \<Rightarrow> 'a \<times> error option" where
  "getFromStorage c fs d index =
     (if index < length (memoryData d) then (memoryData d ! index, None)
      else retrieveFromDisk c fs d index)"

definition Get :: "'a codec \<Rightarrow> fsys \<Rightarrow> 'a DBList \<Rightarrow> int \<Rightarrow> ('a \<times> error option) outcome" where
  "Get c fs d index =
     (if index \<ge> int (length (sortedIndexes d)) then Returns (zero_value c, Some IndexOutOfRange)
      else (case slice_index (sortedIndexes d) index of
              Panics \<Rightarrow> Panics
            | Returns index' \<Rightarrow> Returns (getFromStorage c fs d index')))"

text \<open>
  Modelled from the spec: \<^verbatim>\<open>sort.SliceStable\<close> belongs to Go's standard library,
  not to this repository; the spec calls it a stable sort of the order index. The model
  is the library's \<^verbatim>\<open>insertionSort\<close> over the whole slice,
  \<^verbatim>\<open>for i := a + 1; i < b; i++ { for j := i; j > a && Less(j, j-1); j-- { Swap(j, j-1) } }\<close>,
  which is all the library runs on at most 20 elements; on a longer slice the library
  sorts blocks of 20 this way and merges them in place, which gives the same slice
  whenever the comparator is a strict weak order: the result is then in order and ties
  keep their places (\<open>SliceStable_ordered\<close>, \<open>SliceStable_precedes\<close>), and that
  determines it. The closure \<open>lessf\<close> reads the slice
  that is being sorted, so it takes the slice's present content; next to its verdict it
  returns a record of the call it made, and the sort returns these records in order.
\<close>

fun insertion_inner ::
  "('e list \<Rightarrow> nat \<Rightarrow> nat \<Rightarrow> bool \<times> 'c) \<Rightarrow> nat \<Rightarrow> nat \<Rightarrow> 'e list \<times> 'c list \<Rightarrow> 'e list \<times> 'c list" where
  "insertion_inner lessf a 0 s = s"
| "insertion_inner lessf a (Suc j) (xs, calls) =
     (if Suc j > a then
        (case lessf xs (Suc j) j of
           (True, call) \<Rightarrow>
             insertion_inner lessf a j (xs[Suc j := xs ! j, j := xs ! Suc j], calls @ [call])
         | (False, call) \<Rightarrow> (xs, calls @ [call]))
      else (xs, calls))"

definition insertionSort ::
  "('e list \<Rightarrow> nat \<Rightarrow> nat \<Rightarrow> bool \<times> 'c) \<Rightarrow> nat \<Rightarrow> nat \<Rightarrow> 'e list \<times> 'c list \<Rightarrow> 'e list \<times> 'c list" where
  "insertionSort lessf a b s = fold (\<lambda>i. insertion_inner lessf a i) [a + 1..<b] s"

definition SliceStable :: "('e list \<Rightarrow> nat \<Rightarrow> nat \<Rightarrow> bool \<times> 'c) \<Rightarrow> 'e list \<Rightarrow> 'e list \<times> 'c list" where
  "SliceStable lessf xs = insertionSort lessf 0 (length xs) (xs, [])"

text \<open>
  \<^verbatim>\<open>Sort\<close>: the list afterwards, and the calls of \<^verbatim>\<open>compare\<close> it made, in order,
  each with its two arguments. The closure given to \<^verbatim>\<open>sort.SliceStable\<close> keeps the
  item that \<^verbatim>\<open>getFromStorage\<close> returns and drops its error.
\<close>

definition Sort_less ::
  "'a codec \<Rightarrow> fsys \<Rightarrow> ('a \<Rightarrow> 'a \<Rightarrow> bool) \<Rightarrow> 'a DBList \<Rightarrow> nat list \<Rightarrow> nat \<Rightarrow> nat \<Rightarrow> bool \<times> ('a \<times> 'a)" where
  "Sort_less c fs compare d xs i j =
     (let itemA = fst (getFromStorage c fs d (xs ! i));
          itemB = fst (getFromStorage c fs d (xs ! j))
      in (compare itemA itemB, (itemA, itemB)))"

definition Sort ::
  "'a codec \<Rightarrow> fsys \<Rightarrow> ('a \<Rightarrow> 'a \<Rightarrow> bool) \<Rightarrow> 'a DBList \<Rightarrow> 'a DBList \<times> ('a \<times> 'a) list" where
  "Sort c fs compare d =
     (if isSorted d then (d, [])
      else (case SliceStable (Sort_less c fs compare d) (sortedIndexes d) of
              (xs, calls) \<Rightarrow> (d\<lparr>sortedIndexes := xs, isSorted := True\<rparr>, calls)))"

text \<open>
  \<^verbatim>\<open>Iterator\<close>. The goroutine and the channel are modelled by what they produce when
  no other operation runs meanwhile and the consumer receives until the channel is
  closed: the items sent, in order, and the messages given to \<^verbatim>\<open>slog.Error\<close>. The
  context says, for each index, whether \<^verbatim>\<open>ctx.Err()\<close> is set when the loop reaches
  it and whether the \<^verbatim>\<open>select\<close> takes \<^verbatim>\<open>ctx.Done()\<close> instead of the send.
\<close>

record ctx =
  ctx_err :: "nat \<Rightarrow> bool"
  ctx_done :: "nat \<Rightarrow> bool"

definition load_failure :: "nat \<Rightarrow> string" where
  "load_failure i = ''DBList failed to load index '' @ fmt_d i"

function Iterator_loop ::
  "'a codec \<Rightarrow> fsys \<Rightarrow> 'a DBList \<Rightarrow> ctx \<Rightarrow> nat \<Rightarrow> 'a list \<times> string list \<Rightarrow> ('a list \<times> string list) outcome" where
  "Iterator_loop c fs d cx i (sent, logged) =
     (if i < totalCount d then
        (if ctx_err cx i then Returns (sent, logged)
         else (case Get c fs d (int i) of
                 Panics \<Rightarrow> Panics
               | Returns (item, Some err) \<Rightarrow>
                   Iterator_loop c fs d cx (Suc i) (sent, logged @ [load_failure i])
               | Returns (item, None) \<Rightarrow>
                   (if ctx_done cx i then Returns (sent, logged)
                    else Iterator_loop c fs d cx (Suc i) (sent @ [item], logged))))
      else Returns (sent, logged))"
  by pat_completeness auto
termination
  by (relation "measure (\<lambda>(c, fs, d, cx, i, s). totalCount d - i)") auto

declare Iterator_loop.simps [simp del]

definition Iterator :: "'a codec \<Rightarrow> fsys \<Rightarrow> 'a DBList \<Rightarrow> ctx \<Rightarrow> ('a list \<times> string list) outcome" where
  "Iterator c fs d cx = Iterator_loop c fs d cx 0 ([], [])"

text \<open>
  The lists a program can hold: made by \<^verbatim>\<open>NewDBList\<close> and changed by \<^verbatim>\<open>Add\<close>,
  \<^verbatim>\<open>Adds\<close> and \<^verbatim>\<open>Sort\<close> (whether they succeed or fail), on whatever the
  filesystem is at each call. \<^verbatim>\<open>Get\<close>, \<^verbatim>\<open>Size\<close> and \<^verbatim>\<open>Iterator\<close> assign no
  field.
\<close>

inductive reachable :: "'a codec \<Rightarrow> 'a DBList \<Rightarrow> bool" for c :: "'a codec" where
  reachable_New: "NewDBList path maxInMem = Returns d \<Longrightarrow> reachable c d"
| reachable_Add: "reachable c d \<Longrightarrow> reachable c (fst (snd (Add c item (d, fs))))"
| reachable_Adds: "reachable c d \<Longrightarrow> reachable c (fst (snd (Adds c items (d, fs))))"
| reachable_Sort: "reachable c d \<Longrightarrow> reachable c (fst (Sort c fs compare d))"

section \<open>Notions used to state the properties\<close>

text \<open>
  What \<^verbatim>\<open>Get(i)\<close> hands to the loop of \<^verbatim>\<open>Iterator\<close>: the item when the error is
  \<^verbatim>\<open>nil\<close>, nothing otherwise.
\<close>

definition yielded_at :: "'a codec \<Rightarrow> fsys \<Rightarrow> 'a DBList \<Rightarrow> nat \<Rightarrow> 'a option" where
  "yielded_at c fs d i =
     (case Get c fs d (int i) of
        Returns (item, None) \<Rightarrow> Some item
      | Returns (item, Some err) \<Rightarrow> None
      | Panics \<Rightarrow> None)"

text \<open>
  A path element that \<^verbatim>\<open>filepath.Clean\<close> keeps as it is; and the path that
  \<^verbatim>\<open>filePathForIndex\<close> gives to the record of a physical position.
\<close>

definition plain_name :: "string \<Rightarrow> bool" where
  "plain_name name \<longleftrightarrow> name \<noteq> [] \<and> CHR ''/'' \<notin> set name \<and> name \<noteq> ''.'' \<and> name \<noteq> ''..''"

definition record_path :: "string \<Rightarrow> nat \<Rightarrow> string" where
  "record_path dp p = filepath_Join [dp, fmt_d p @ ''.json'']"

text \<open>
  What \<open>Adds\<close> keeps true while it inserts the items \<open>xs\<close> into a fresh list made
  with \<open>NewDBList path C\<close> on the filesystem \<open>fs0\<close>: the first \<open>C\<close> items are the
  memory buffer, every later one is encoded in the record of its position, and no other
  file has changed.
\<close>

definition stored ::
  "'a codec \<Rightarrow> string \<Rightarrow> int \<Rightarrow> fsys \<Rightarrow> 'a list \<Rightarrow> 'a DBList \<times> fsys \<Rightarrow> bool" where
  "stored c path C fs0 xs s \<longleftrightarrow>
     diskPath (fst s) = path \<and> maxInMemory (fst s) = C \<and> totalCount (fst s) = length xs \<and>
     memoryData (fst s) = take (nat C) xs \<and>
     (\<forall>p. nat C \<le> p \<and> p < length xs \<longrightarrow>
        (\<exists>data. marshal c (xs ! p) = Inr data \<and> files (snd s) (record_path path p) = Some data)) \<and>
     (\<forall>q. q \<notin> record_path path ` {nat C..<length xs} \<longrightarrow> files (snd s) q = files fs0 q)"

text \<open>
  \<open>precedes xs p q\<close>: in the order index \<open>xs\<close>, the position \<open>p\<close> stands at an
  earlier logical index than the position \<open>q\<close>. \<open>keeps_insertion_order\<close>: any two
  positions whose items tie under the comparator, neither sorting before the other, stand
  in the order index in the order of their insertion, the lower position first.
\<close>

definition precedes :: "'e list \<Rightarrow> 'e \<Rightarrow> 'e \<Rightarrow> bool" where
  "precedes xs p q \<longleftrightarrow> (\<exists>j \<in> {0..<length xs}. \<exists>i \<in> {0..<j}. xs ! i = p \<and> xs ! j = q)"

definition keeps_insertion_order ::
  "('a \<Rightarrow> 'a \<Rightarrow> bool) \<Rightarrow> 'a codec \<Rightarrow> fsys \<Rightarrow> 'a DBList \<Rightarrow> bool" where
  "keeps_insertion_order compare c fs d \<longleftrightarrow>
     (\<forall>q \<in> {0..<totalCount d}. \<forall>p \<in> {0..<q}.
        \<not> compare (fst (getFromStorage c fs d p)) (fst (getFromStorage c fs d q)) \<and>
        \<not> compare (fst (getFromStorage c fs d q)) (fst (getFromStorage c fs d p)) \<longrightarrow>
        precedes (sortedIndexes d) p q)"

text \<open>
  A strict weak ordering, as \<^verbatim>\<open>Sort\<close> expects its comparator to be: asymmetric and
  negatively transitive. \<open>ordered_by lt xs\<close>: no element of \<open>xs\<close> sorts before one
  that stands earlier; \<open>run_ordered\<close> says so of the indices \<open>a\<close> to \<open>e\<close>, and
  \<open>gap\<close> of these but for the element at \<open>k\<close>, which sorts before all that follow
  it: the state of the inner loop of the insertion sort.
\<close>

definition strict_weak_order :: "('e \<Rightarrow> 'e \<Rightarrow> bool) \<Rightarrow> bool" where
  "strict_weak_order lt \<longleftrightarrow>
     (\<forall>a b. lt a b \<longrightarrow> \<not> lt b a) \<and> (\<forall>a b c. \<not> lt a b \<and> \<not> lt b c \<longrightarrow> \<not> lt a c)"

definition ordered_by :: "('e \<Rightarrow> 'e \<Rightarrow> bool) \<Rightarrow> 'e list \<Rightarrow> bool" where
  "ordered_by lt xs \<longleftrightarrow> (\<forall>j \<in> {0..<length xs}. \<forall>i \<in> {0..<j}. \<not> lt (xs ! j) (xs ! i))"

definition run_ordered :: "('e \<Rightarrow> 'e \<Rightarrow> bool) \<Rightarrow> 'e list \<Rightarrow> nat \<Rightarrow> nat \<Rightarrow> bool" where
  "run_ordered lt xs a e \<longleftrightarrow> (\<forall>i j. a \<le> i \<and> i < j \<and> j \<le> e \<longrightarrow> \<not> lt (xs ! j) (xs ! i))"

definition gap :: "('e \<Rightarrow> 'e \<Rightarrow> bool) \<Rightarrow> 'e list \<Rightarrow> nat \<Rightarrow> nat \<Rightarrow> nat \<Rightarrow> bool" where
  "gap lt xs a k e \<longleftrightarrow>
     (\<forall>i j. a \<le> i \<and> i < j \<and> j \<le> e \<and> i \<noteq> k \<and> j \<noteq> k \<longrightarrow> \<not> lt (xs ! j) (xs ! i)) \<and>
     (\<forall>m. k < m \<and> m \<le> e \<longrightarrow> lt (xs ! k) (xs ! m))"

section \<open>Values for evaluation\<close>

text \<open>
  Items that are numbers, encoded as their decimal digits; a filesystem that is empty and
  on which no call fails; a context that is never cancelled.
\<close>

definition digit_val :: "char \<Rightarrow> nat" where
  "digit_val ch = length (takeWhile (\<lambda>x. x \<noteq> ch) ''0123456789'')"

definition parse_d :: "string \<Rightarrow> nat option" where
  "parse_d s =
     (if s \<noteq> [] \<and> list_all (\<lambda>ch. digit_val ch < 10) s
      then Some (fold (\<lambda>ch n. 10 * n + digit_val ch) s 0) else None)"

definition id_codec :: "nat codec" where
  "id_codec =
     \<lparr>zero_value = 0,
      marshal = (\<lambda>n. Inr (fmt_d n)),
      unmarshal = (\<lambda>data item. case parse_d data of
                                 None \<Rightarrow> (item, Some ''invalid character'')
                               | Some n \<Rightarrow> (n, None))\<rparr>"

definition quiet_fs :: fsys where
  "quiet_fs =
     \<lparr>files = Map.empty, dirs = {}, mkdir_err = (\<lambda>p. None), create_err = (\<lambda>p. None),
      write_err = (\<lambda>p. None), close_err = (\<lambda>p. None), read_err = (\<lambda>p. None)\<rparr>"

definition background :: ctx where
  "background = \<lparr>ctx_err = (\<lambda>i. False), ctx_done = (\<lambda>i. False)\<rparr>"

definition ascending :: "nat \<Rightarrow> nat \<Rightarrow> bool" where
  "ascending a b = (a < b)"

definition descending :: "nat \<Rightarrow> nat \<Rightarrow> bool" where
  "descending a b = (b < a)"

definition all_equal :: "nat \<Rightarrow> nat \<Rightarrow> bool" where
  "all_equal a b = False"

definition new_list :: "nat DBList" where
  "new_list =
     \<lparr>memoryData = [], diskPath = ''/tmp/db'', maxInMemory = 1,
      totalCount = 0, sortedIndexes = [], isSorted = True\<rparr>"

definition three_items :: "nat DBList \<times> fsys" where
  "three_items = snd (Adds id_codec [3, 1, 2] (new_list, quiet_fs))"

definition read_only_fs :: fsys where
  "read_only_fs = (snd three_items)\<lparr>create_err := (\<lambda>p. Some ''permission denied'')\<rparr>"

text \<open>
  The filesystem of \<open>three_items\<close> after the record of position 1 was overwritten with
  bytes that do not decode and the record of position 2 was deleted.
\<close>

definition damaged_fs :: fsys where
  "damaged_fs =
     (snd three_items)\<lparr>files := (files (snd three_items))
        (''/tmp/db/1.json'' \<mapsto> ''x'', ''/tmp/db/2.json'' := None)\<rparr>"

text \<open>
  Fifty items, the numbers 100 to 149, in a list that keeps 20 of them in memory; and its
  filesystem after the record of position 30 was deleted.
\<close>

definition fifty_items :: "nat DBList \<times> fsys" where
  "fifty_items =
     snd (Adds id_codec (map (\<lambda>i. 100 + i) [0..<50]) (new_list\<lparr>maxInMemory := 20\<rparr>, quiet_fs))"

definition lost_30_fs :: fsys where
  "lost_30_fs = (snd fifty_items)\<lparr>files := (files (snd fifty_items))(''/tmp/db/30.json'' := None)\<rparr>"

text \<open>
  The list \<open>three_items\<close> after \<^verbatim>\<open>Sort\<close> by ascending value and one more \<^verbatim>\<open>Add\<close>;
  and four items of which two pairs tie when compared by their tens.
\<close>

definition resorted :: "nat DBList \<times> fsys" where
  "resorted =
     snd (Add id_codec 5
            (fst (Sort id_codec (snd three_items) ascending (fst three_items)), snd three_items))"

definition by_tens :: "nat \<Rightarrow> nat \<Rightarrow> bool" where
  "by_tens a b = (a div 10 < b div 10)"

definition four_items :: "nat DBList \<times> fsys" where
  "four_items = snd (Adds id_codec [21, 10, 25, 13] (new_list, quiet_fs))"

text \<open>
  The filesystem of \<open>three_items\<close> after the record of position 2 was deleted, and
  after it was overwritten with an encoded \<open>0\<close>.
\<close>

definition lost_2_fs :: fsys where
  "lost_2_fs = (snd three_items)\<lparr>files := (files (snd three_items))(''/tmp/db/2.json'' := None)\<rparr>"

definition zero_2_fs :: fsys where
  "zero_2_fs = (snd three_items)\<lparr>files := (files (snd three_items))(''/tmp/db/2.json'' \<mapsto> ''0'')\<rparr>"

section \<open>Properties\<close>

subsection \<open>Facts used by several claims\<close>

lemma Sort_isSorted: "isSorted (fst (Sort c fs compare d))"
  by (simp add: Sort_def split: prod.splits)

lemma Sort_when_sorted: "isSorted d \<Longrightarrow> Sort c fs compare d = (d, [])"
  by (simp add: Sort_def)

lemma insertion_inner_length:
  "length (fst (insertion_inner lessf a j (xs, calls))) = length xs"
  by (induction j arbitrary: xs calls) (auto split: prod.splits bool.splits)

lemma insertion_inner_mset:
  "j < length xs \<Longrightarrow> mset (fst (insertion_inner lessf a j (xs, calls))) = mset xs"
proof (induction j arbitrary: xs calls)
  case 0
  then show ?case by simp
next
  case (Suc j)
  then show ?case
    by (auto split: prod.splits bool.splits simp: mset_swap)
qed

lemma insertionSort_fold_mset:
  "\<forall>i \<in> set is. i < length (fst s) \<Longrightarrow>
   mset (fst (fold (\<lambda>i. insertion_inner lessf a i) is s)) = mset (fst s) \<and>
   length (fst (fold (\<lambda>i. insertion_inner lessf a i) is s)) = length (fst s)"
proof (induction "is" arbitrary: s)
  case Nil
  then show ?case by simp
next
  case (Cons i "is")
  obtain xs calls where s: "s = (xs, calls)" by (cases s)
  have 1: "mset (fst (insertion_inner lessf a i s)) = mset (fst s)"
    using Cons.prems by (simp add: s insertion_inner_mset)
  have 2: "length (fst (insertion_inner lessf a i s)) = length (fst s)"
    by (simp add: s insertion_inner_length)
  have "\<forall>k \<in> set is. k < length (fst (insertion_inner lessf a i s))"
    using Cons.prems 2 by simp
  from Cons.IH [OF this] 1 2 show ?case by simp
qed

lemma SliceStable_mset: "mset (fst (SliceStable lessf xs)) = mset xs"
  using insertionSort_fold_mset [of "[0 + 1..<length xs]" "(xs, [])" lessf 0]
  by (simp add: SliceStable_def insertionSort_def)

lemma Sort_mset: "mset (sortedIndexes (fst (Sort c fs compare d))) = mset (sortedIndexes d)"
  by (simp add: Sort_def SliceStable_mset split: prod.splits) (metis SliceStable_mset fst_conv)

lemma Sort_totalCount: "totalCount (fst (Sort c fs compare d)) = totalCount d"
  by (simp add: Sort_def split: prod.splits)

lemma Add_success:
  "Add c item (d, fs) = (None, d', fs') \<Longrightarrow>
     sortedIndexes d' = sortedIndexes d @ [totalCount d] \<and> totalCount d' = totalCount d + 1 \<and> \<not> isSorted d'"
  by (auto simp: Add_def split: if_splits prod.splits option.splits)

lemma Add_failure: "Add c item (d, fs) = (Some err, d', fs') \<Longrightarrow> d' = d"
  by (auto simp: Add_def split: if_splits prod.splits option.splits)

lemma Add_index:
  assumes "mset (sortedIndexes d) = mset [0..<totalCount d]"
  shows "mset (sortedIndexes (fst (snd (Add c item (d, fs))))) =
         mset [0..<totalCount (fst (snd (Add c item (d, fs))))]"
proof -
  obtain r d' fs' where a: "Add c item (d, fs) = (r, d', fs')"
    by (cases "Add c item (d, fs)") auto
  show ?thesis
  proof (cases r)
    case None
    with a Add_success [of c item d fs d' fs'] assms show ?thesis by simp
  next
    case (Some err)
    with a Add_failure [of c item d fs err d' fs'] assms show ?thesis by simp
  qed
qed

lemma Adds_index:
  "mset (sortedIndexes (fst s)) = mset [0..<totalCount (fst s)] \<Longrightarrow>
   mset (sortedIndexes (fst (snd (Adds c items s)))) =
     mset [0..<totalCount (fst (snd (Adds c items s)))]"
proof (induction items arbitrary: s)
  case Nil
  then show ?case by simp
next
  case (Cons item items)
  obtain d fs where s: "s = (d, fs)" by (cases s)
  obtain r s' where a: "Add c item s = (r, s')" by (cases "Add c item s")
  have i: "mset (sortedIndexes (fst s')) = mset [0..<totalCount (fst s')]"
    using Add_index [of d c item fs] Cons.prems a s by simp
  show ?case
  proof (cases r)
    case None
    with a Cons.IH [OF i] show ?thesis by simp
  next
    case (Some err)
    with a i show ?thesis by simp
  qed
qed

lemma reachable_index: "reachable c d \<Longrightarrow> mset (sortedIndexes d) = mset [0..<totalCount d]"
proof (induction rule: reachable.induct)
  case (reachable_New path maxInMem d)
  then show ?case by (auto simp: NewDBList_def split: if_splits)
next
  case (reachable_Add d item fs)
  then show ?case by (simp add: Add_index)
next
  case (reachable_Adds d items fs)
  then show ?case using Adds_index [of "(d, fs)" c items] by simp
next
  case (reachable_Sort d fs compare)
  then show ?case by (simp add: Sort_mset Sort_totalCount)
qed

lemma index_facts:
  assumes "mset xs = mset [0..<n]"
  shows "length xs = n \<and> distinct xs \<and> set xs = {0..<n}"
proof -
  have "length xs = n" using assms by (metis size_mset length_upt diff_zero)
  moreover have "distinct xs" using assms by (metis distinct_upt mset_eq_imp_distinct_iff)
  moreover have "set xs = {0..<n}" using assms by (metis mset_eq_setD atLeastLessThan_upt)
  ultimately show ?thesis by simp
qed

lemma three_items_list:
  "fst three_items =
     \<lparr>memoryData = [3], diskPath = ''/tmp/db'', maxInMemory = 1,
      totalCount = 3, sortedIndexes = [0, 1, 2], isSorted = False\<rparr>"
  by code_simp

lemma three_items_sorted:
  "sortedIndexes (fst (Sort id_codec (snd three_items) ascending (fst three_items))) = [1, 2, 0]"
  by code_simp

lemma three_items_reachable: "reachable id_codec (fst three_items)"
proof -
  have "NewDBList ''/tmp/db'' 1 = Returns new_list"
    by (simp add: NewDBList_def new_list_def)
  then have "reachable id_codec new_list"
    by (rule reachable_New)
  then have "reachable id_codec (fst (snd (Adds id_codec [3, 1, 2] (new_list, quiet_fs))))"
    by (rule reachable_Adds)
  then show ?thesis
    by (simp add: three_items_def)
qed

lemma filePathForIndex_read:
  "filePathForIndex d index False fs = (filepath_Join [diskPath d, fmt_d index @ ''.json''], None, fs)"
  by (simp add: filePathForIndex_def)

lemma Get_in_range:
  "i < length (sortedIndexes d) \<Longrightarrow>
     Get c fs d (int i) = Returns (getFromStorage c fs d (sortedIndexes d ! i))"
  by (simp add: Get_def slice_index_def)

lemma Iterator_loop_run:
  assumes len: "length (sortedIndexes d) = totalCount d"
    and live: "\<forall>k<totalCount d. \<not> ctx_err cx k \<and> \<not> ctx_done cx k"
  shows "i \<le> totalCount d \<Longrightarrow>
     Iterator_loop c fs d cx i (sent, logged) =
       Returns (sent @ List.map_filter (yielded_at c fs d) [i..<totalCount d],
                logged @ map load_failure
                  (filter (\<lambda>k. yielded_at c fs d k = None) [i..<totalCount d]))"
proof (induction "totalCount d - i" arbitrary: i sent logged)
  case 0
  then show ?case
    by (simp add: Iterator_loop.simps [of c fs d cx i])
next
  case (Suc n)
  then have i: "i < totalCount d" and n: "n = totalCount d - Suc i" and le: "Suc i \<le> totalCount d"
    by simp_all
  have up: "[i..<totalCount d] = i # [Suc i..<totalCount d]"
    using i by (simp add: upt_conv_Cons)
  have g: "Get c fs d (int i) = Returns (getFromStorage c fs d (sortedIndexes d ! i))"
    using i len by (simp add: Get_in_range)
  obtain item err where s: "getFromStorage c fs d (sortedIndexes d ! i) = (item, err)"
    by (cases "getFromStorage c fs d (sortedIndexes d ! i)")
  show ?case
  proof (cases err)
    case None
    then have y: "yielded_at c fs d i = Some item"
      by (simp add: yielded_at_def g s)
    have "Iterator_loop c fs d cx i (sent, logged) =
          Iterator_loop c fs d cx (Suc i) (sent @ [item], logged)"
      using i live None by (simp add: Iterator_loop.simps [of c fs d cx i] g s)
    also note Suc.hyps(1) [OF n le]
    finally show ?thesis
      by (simp add: up y)
  next
    case (Some e)
    then have y: "yielded_at c fs d i = None"
      by (simp add: yielded_at_def g s)
    have "Iterator_loop c fs d cx i (sent, logged) =
          Iterator_loop c fs d cx (Suc i) (sent, logged @ [load_failure i])"
      using i live Some by (simp add: Iterator_loop.simps [of c fs d cx i] g s)
    also note Suc.hyps(1) [OF n le]
    finally show ?thesis
      by (simp add: up y)
  qed
qed

lemma length_map_filter:
  "length (List.map_filter f xs) + length (filter (\<lambda>x. f x = None) xs) = length xs"
  by (induction xs) (auto simp: split: option.splits)

lemma Get_failure_kinds:
  assumes "i < length (sortedIndexes d)"
  shows "yielded_at c fs d i = None \<longleftrightarrow>
          (\<exists>item e. Get c fs d (int i) = Returns (item, Some (FailedToReadFromDisk e)) \<or>
                    Get c fs d (int i) = Returns (item, Some (FailedToUnmarshal e)))"
  using assms
  by (auto simp: yielded_at_def Get_in_range getFromStorage_def retrieveFromDisk_def
      filePathForIndex_read Let_def split: sum.splits prod.splits option.splits)

lemma yielded_at_Some:
  assumes "i < length (sortedIndexes d)"
  shows "yielded_at c fs d i = Some item \<longleftrightarrow> Get c fs d (int i) = Returns (item, None)"
  using assms
  by (auto simp: yielded_at_def Get_in_range split: prod.splits option.splits)

lemma digit_char_inj: "a < 10 \<Longrightarrow> b < 10 \<Longrightarrow> digit_char a = digit_char b \<Longrightarrow> a = b"
proof -
  assume a: "a < 10" and b: "b < 10" and e: "digit_char a = digit_char b"
  have d: "distinct ''0123456789''" by simp
  have "a < length ''0123456789''" "b < length ''0123456789''" using a b by simp_all
  with d e show "a = b" unfolding digit_char_def by (simp only: nth_eq_iff_index_eq)
qed

lemma digit_char_in: "a < 10 \<Longrightarrow> digit_char a \<in> set ''0123456789''"
  unfolding digit_char_def by (rule nth_mem) simp

lemma fmt_d_nonempty: "fmt_d n \<noteq> []"
  by (subst fmt_d.simps) simp

lemma fmt_d_digits: "set (fmt_d n) \<subseteq> set ''0123456789''"
proof (induction n rule: fmt_d.induct)
  case (1 n)
  show ?case
  proof (cases "n < 10")
    case True
    then show ?thesis using digit_char_in [of n] by (subst fmt_d.simps) simp
  next
    case False
    have "n mod 10 < 10" by simp
    then have "digit_char (n mod 10) \<in> set ''0123456789''" by (rule digit_char_in)
    with False 1 show ?thesis by (subst fmt_d.simps) simp
  qed
qed

lemma fmt_d_inj: "fmt_d n = fmt_d m \<Longrightarrow> n = m"
proof (induction n arbitrary: m rule: fmt_d.induct)
  case (1 n)
  show ?case
  proof (cases "n < 10")
    case n: True
    show ?thesis
    proof (cases "m < 10")
      case True
      with n 1(2) show ?thesis
        by (simp add: fmt_d.simps [of n] fmt_d.simps [of m] digit_char_inj)
    next
      case False
      with n 1(2) fmt_d_nonempty [of "m div 10"] show ?thesis
        by (simp add: fmt_d.simps [of n] fmt_d.simps [of m])
    qed
  next
    case n: False
    show ?thesis
    proof (cases "m < 10")
      case True
      with n 1(2) fmt_d_nonempty [of "n div 10"] show ?thesis
        by (simp add: fmt_d.simps [of n] fmt_d.simps [of m])
    next
      case False
      with n 1(2) have e: "fmt_d (n div 10) = fmt_d (m div 10)"
        and l: "digit_char (n mod 10) = digit_char (m mod 10)"
        by (simp_all add: fmt_d.simps [of n] fmt_d.simps [of m])
      from 1(1) [OF n e] have "n div 10 = m div 10" .
      moreover from l have "n mod 10 = m mod 10"
        by (intro digit_char_inj) simp_all
      ultimately show ?thesis
        by (metis div_mult_mod_eq)
    qed
  qed
qed

lemma split_path_nonempty: "split_path s \<noteq> []"
  by (induction s) (auto split: list.splits)

lemma split_path_append: "split_path (s @ CHR ''/'' # t) = split_path s @ split_path t"
proof (induction s)
  case Nil
  show ?case by simp
next
  case (Cons ch s)
  then show ?case
    using split_path_nonempty [of s] by (auto split: list.splits)
qed

lemma split_path_plain: "CHR ''/'' \<notin> set t \<Longrightarrow> split_path t = [t]"
  by (induction t) auto

lemma strings_Join_snoc:
  "strings_Join (es @ [e]) sep = (if es = [] then e else strings_Join es sep @ sep @ e)"
  by (induction es sep rule: strings_Join.induct) auto

lemma filepath_Join_shape:
  "\<exists>K. \<forall>name. plain_name name \<longrightarrow> filepath_Join [dp, name] = K @ name"
proof (cases "dp = []")
  case True
  have "filepath_Join [dp, name] = [] @ name" if "plain_name name" for name
  proof -
    have "name \<noteq> []" "CHR ''/'' \<notin> set name"
      using that by (simp_all add: plain_name_def)
    then have "hd name \<noteq> CHR ''/''"
      by (metis hd_in_set)
    then show ?thesis
      using True that
      by (simp add: plain_name_def filepath_Clean_def split_path_plain clean_step_def Let_def)
  qed
  then show ?thesis by blast
next
  case False
  define rooted where "rooted = (hd dp = CHR ''/'')"
  define S where "S = fold (clean_step rooted) (split_path dp) []"
  define K where "K = (if rooted then ''/'' else []) @ (if S = [] then [] else strings_Join S ''/'' @ ''/'')"
  have "filepath_Join [dp, name] = K @ name" if "plain_name name" for name
  proof -
    have sp: "split_path (dp @ CHR ''/'' # name) = split_path dp @ [name]"
      using that by (simp add: split_path_append split_path_plain plain_name_def)
    have hd: "hd (dp @ CHR ''/'' # name) = hd dp"
      using False by simp
    have st: "clean_step rooted name S = S @ [name]"
      using that by (simp add: clean_step_def plain_name_def)
    show ?thesis
      using False that
      by (simp add: filepath_Clean_def sp hd Let_def rooted_def [symmetric] S_def [symmetric]
          st strings_Join_snoc K_def plain_name_def)
  qed
  then show ?thesis by blast
qed

lemma record_name_plain: "plain_name (fmt_d p @ ''.json'')"
proof -
  have "CHR ''/'' \<notin> set (fmt_d p)" "CHR ''.'' \<notin> set (fmt_d p)"
    using fmt_d_digits [of p] by auto
  moreover obtain ch s where "fmt_d p = ch # s"
    using fmt_d_nonempty [of p] by (cases "fmt_d p") auto
  ultimately show ?thesis
    by (auto simp: plain_name_def)
qed

lemma record_path_inj:
  "filepath_Join [dp, fmt_d p @ ''.json''] = filepath_Join [dp, fmt_d q @ ''.json''] \<Longrightarrow> p = q"
proof -
  assume e: "filepath_Join [dp, fmt_d p @ ''.json''] = filepath_Join [dp, fmt_d q @ ''.json'']"
  obtain K where "\<forall>name. plain_name name \<longrightarrow> filepath_Join [dp, name] = K @ name"
    using filepath_Join_shape by blast
  with e record_name_plain have "K @ fmt_d p @ ''.json'' = K @ fmt_d q @ ''.json''"
    by metis
  then show "p = q"
    by (simp add: fmt_d_inj)
qed

lemma filePathForIndex_path:
  "fst (filePathForIndex d p False fs) = record_path (diskPath d) p"
  by (simp add: filePathForIndex_def record_path_def)

lemma record_path_eq: "record_path dp p = record_path dp q \<longleftrightarrow> p = q"
  using record_path_inj [of dp p q] by (auto simp: record_path_def)

lemma Add_spill_success:
  "Add_spill c item d fs = (None, fs') \<Longrightarrow>
     \<exists>data. marshal c item = Inr data \<and>
            files fs' = (files fs)(record_path (diskPath d) (totalCount d) \<mapsto> data)"
  by (auto simp: Add_spill_def filePathForIndex_def os_MkdirAll_def os_Create_def file_Write_def
      record_path_def Let_def split: prod.splits option.splits sum.splits)

lemma Add_step:
  assumes "Add c item (d, fs) = (None, d', fs')"
  shows "diskPath d' = diskPath d \<and> maxInMemory d' = maxInMemory d \<and>
         totalCount d' = Suc (totalCount d) \<and>
         (if int (length (memoryData d)) < maxInMemory d
          then memoryData d' = memoryData d @ [item] \<and> files fs' = files fs
          else memoryData d' = memoryData d \<and>
               (\<exists>data. marshal c item = Inr data \<and>
                  files fs' = (files fs)(record_path (diskPath d) (totalCount d) \<mapsto> data)))"
proof (cases "int (length (memoryData d)) < maxInMemory d")
  case True
  with assms show ?thesis
    by (auto simp: Add_def)
next
  case False
  obtain err fs1 where s: "Add_spill c item d fs = (err, fs1)"
    by (cases "Add_spill c item d fs")
  with assms False have "err = None" "fs1 = fs'"
    and d': "d' = d\<lparr>sortedIndexes := sortedIndexes d @ [totalCount d],
                     totalCount := totalCount d + 1, isSorted := False\<rparr>"
    by (auto simp: Add_def split: option.splits)
  with s Add_spill_success [of c item d fs fs'] False show ?thesis
    by simp
qed

lemma stored_Add:
  assumes C: "0 \<le> C" and st: "stored c path C fs0 xs (d, fs)"
    and add: "Add c item (d, fs) = (None, d', fs')"
  shows "stored c path C fs0 (xs @ [item]) (d', fs')"
proof (cases "int (length (memoryData d)) < maxInMemory d")
  case True
  with st C have short: "length xs < nat C"
    by (auto simp: stored_def)
  from Add_step [OF add] True
  have "diskPath d' = diskPath d" "maxInMemory d' = maxInMemory d"
    "totalCount d' = Suc (totalCount d)" "memoryData d' = memoryData d @ [item]"
    "files fs' = files fs"
    by simp_all
  with st short show ?thesis
    by (auto simp: stored_def)
next
  case False
  with st C have long: "nat C \<le> length xs"
    by (auto simp: stored_def)
  from Add_step [OF add] False
  obtain data where f: "diskPath d' = diskPath d" "maxInMemory d' = maxInMemory d"
    "totalCount d' = Suc (totalCount d)" "memoryData d' = memoryData d"
    "marshal c item = Inr data"
    "files fs' = (files fs)(record_path (diskPath d) (totalCount d) \<mapsto> data)"
    by auto
  have dp: "diskPath d = path" and n: "totalCount d = length xs"
    using st by (simp_all add: stored_def)
  have 1: "\<exists>data. marshal c ((xs @ [item]) ! p) = Inr data \<and>
             files fs' (record_path path p) = Some data"
    if "nat C \<le> p" "p < length (xs @ [item])" for p
  proof (cases "p = length xs")
    case True
    with f dp n show ?thesis by simp
  next
    case False
    with that have p: "p < length xs" by simp
    with that st obtain data' where "marshal c (xs ! p) = Inr data'"
      "files fs (record_path path p) = Some data'"
      by (auto simp: stored_def)
    with f dp n False p show ?thesis
      by (simp add: record_path_eq nth_append)
  qed
  have 2: "files fs' q = files fs0 q" if "q \<notin> record_path path ` {nat C..<length (xs @ [item])}" for q
  proof -
    have "q \<noteq> record_path path (length xs)"
      using that long by auto
    moreover have "q \<notin> record_path path ` {nat C..<length xs}"
      using that by auto
    ultimately show ?thesis
      using st f dp n by (simp add: stored_def)
  qed
  from f st long 1 2 show ?thesis
    unfolding stored_def by simp
qed

lemma stored_Adds:
  assumes C: "0 \<le> C"
  shows "stored c path C fs0 xs s \<Longrightarrow> Adds c items s = (None, s') \<Longrightarrow>
         stored c path C fs0 (xs @ items) s'"
proof (induction items arbitrary: xs s)
  case Nil
  then show ?case by simp
next
  case (Cons item items)
  obtain d fs where s: "s = (d, fs)" by (cases s)
  obtain r d1 fs1 where a: "Add c item (d, fs) = (r, d1, fs1)"
    by (cases "Add c item (d, fs)") auto
  with Cons.prems(2) s have r: "r = None" and rest: "Adds c items (d1, fs1) = (None, s')"
    by (auto split: option.splits)
  from stored_Add [OF C] Cons.prems(1) a r s have "stored c path C fs0 (xs @ [item]) (d1, fs1)"
    by simp
  from Cons.IH [OF this rest] show ?case by simp
qed

lemma precedes_iff:
  "precedes xs p q \<longleftrightarrow> (\<exists>i j. i < j \<and> j < length xs \<and> xs ! i = p \<and> xs ! j = q)"
proof
  assume "precedes xs p q"
  then obtain j i where "j < length xs" "i < j" "xs ! i = p" "xs ! j = q"
    unfolding precedes_def by auto
  then show "\<exists>i j. i < j \<and> j < length xs \<and> xs ! i = p \<and> xs ! j = q"
    by blast
next
  assume "\<exists>i j. i < j \<and> j < length xs \<and> xs ! i = p \<and> xs ! j = q"
  then obtain i j where "i < j" "j < length xs" "xs ! i = p" "xs ! j = q"
    by blast
  then have "j \<in> {0..<length xs}" "i \<in> {0..<j}" "xs ! i = p \<and> xs ! j = q"
    by simp_all
  then show "precedes xs p q"
    unfolding precedes_def by blast
qed

lemma swap_precedes:
  assumes k: "Suc k < length xs" and pq: "precedes xs p q"
  shows "precedes (xs[Suc k := xs ! k, k := xs ! Suc k]) p q \<or> (p = xs ! k \<and> q = xs ! Suc k)"
proof -
  define ys where "ys = xs[Suc k := xs ! k, k := xs ! Suc k]"
  have len: "length ys = length xs"
    by (simp add: ys_def)
  have ys: "ys ! m = (if m = k then xs ! Suc k else if m = Suc k then xs ! k else xs ! m)"
    if "m < length xs" for m
    using that k by (auto simp: ys_def nth_list_update)
  from pq obtain i j where ij: "i < j" "j < length xs" "xs ! i = p" "xs ! j = q"
    by (auto simp: precedes_iff)
  define s where "s = (\<lambda>m. if m = k then Suc k else if m = Suc k then k else m)"
  have s: "ys ! s m = xs ! m" "s m < length xs" if "m < length xs" for m
    using that k ys [of "s m"] by (auto simp: s_def)
  show ?thesis
  proof (cases "i = k \<and> j = Suc k")
    case True
    with ij show ?thesis by simp
  next
    case False
    with ij have "s i < s j"
      by (auto simp: s_def)
    moreover have "ys ! s i = p" "ys ! s j = q" "s j < length ys"
      using ij s [of i] s [of j] len by simp_all
    ultimately have "precedes ys p q"
      unfolding precedes_iff by blast
    then show ?thesis
      by (simp add: ys_def)
  qed
qed

lemma insertion_inner_precedes:
  assumes less: "\<And>xs i j. fst (lessf xs i j) = lt (xs ! i) (xs ! j)"
    and nlt: "\<not> lt q p"
  shows "j < length xs \<Longrightarrow> precedes xs p q \<Longrightarrow>
         precedes (fst (insertion_inner lessf a j (xs, calls))) p q"
proof (induction j arbitrary: xs calls)
  case 0
  then show ?case by simp
next
  case (Suc j)
  obtain v call where l: "lessf xs (Suc j) j = (v, call)"
    by (cases "lessf xs (Suc j) j")
  show ?case
  proof (cases "a < Suc j \<and> v")
    case True
    with l less [of xs "Suc j" j] have lt: "lt (xs ! Suc j) (xs ! j)"
      by simp
    let ?ys = "xs[Suc j := xs ! j, j := xs ! Suc j]"
    from swap_precedes [OF Suc.prems] lt nlt have "precedes ?ys p q"
      by auto
    moreover have "j < length ?ys"
      using Suc.prems by simp
    ultimately have "precedes (fst (insertion_inner lessf a j (?ys, calls @ [call]))) p q"
      by (rule Suc.IH [rotated])
    with True l show ?thesis
      by simp
  next
    case False
    with l Suc.prems show ?thesis
      by (auto split: bool.splits)
  qed
qed

lemma insertionSort_fold_precedes:
  assumes less: "\<And>xs i j. fst (lessf xs i j) = lt (xs ! i) (xs ! j)"
    and nlt: "\<not> lt q p"
  shows "\<forall>i \<in> set is. i < length (fst s) \<Longrightarrow> precedes (fst s) p q \<Longrightarrow>
         precedes (fst (fold (\<lambda>i. insertion_inner lessf a i) is s)) p q"
proof (induction "is" arbitrary: s)
  case Nil
  then show ?case by simp
next
  case (Cons i "is")
  obtain xs calls where s: "s = (xs, calls)" by (cases s)
  have 1: "precedes (fst (insertion_inner lessf a i s)) p q"
    using Cons.prems insertion_inner_precedes [where lessf = lessf and lt = lt, OF less nlt, of i xs a calls] by (simp add: s)
  have "\<forall>k \<in> set is. k < length (fst (insertion_inner lessf a i s))"
    using Cons.prems by (simp add: s insertion_inner_length)
  from Cons.IH [OF this 1] show ?case by simp
qed

lemma SliceStable_precedes:
  assumes less: "\<And>xs i j. fst (lessf xs i j) = lt (xs ! i) (xs ! j)"
    and nlt: "\<not> lt q p" and pq: "precedes xs p q"
  shows "precedes (fst (SliceStable lessf xs)) p q"
  using insertionSort_fold_precedes [where lessf = lessf and lt = lt, OF less nlt,
      of "[0 + 1..<length xs]" "(xs, [])" 0] pq
  by (simp add: SliceStable_def insertionSort_def)

lemma Sort_precedes:
  assumes "\<not> compare (fst (getFromStorage c fs d q)) (fst (getFromStorage c fs d p))"
    and "precedes (sortedIndexes d) p q"
  shows "precedes (sortedIndexes (fst (Sort c fs compare d))) p q"
proof (cases "isSorted d")
  case True
  with assms show ?thesis by (simp add: Sort_def)
next
  case False
  have "fst (Sort_less c fs compare d xs i j) =
        compare (fst (getFromStorage c fs d (xs ! i))) (fst (getFromStorage c fs d (xs ! j)))"
    for xs i j
    by (simp add: Sort_less_def Let_def)
  from SliceStable_precedes [where lessf = "Sort_less c fs compare d"
      and lt = "\<lambda>a b. compare (fst (getFromStorage c fs d a)) (fst (getFromStorage c fs d b))",
      OF this assms]
  have "precedes (fst (SliceStable (Sort_less c fs compare d) (sortedIndexes d))) p q" .
  moreover obtain ys calls where
    "SliceStable (Sort_less c fs compare d) (sortedIndexes d) = (ys, calls)"
    by (cases "SliceStable (Sort_less c fs compare d) (sortedIndexes d)")
  ultimately show ?thesis
    using False by (simp add: Sort_def)
qed

lemma getFromStorage_Sort:
  "getFromStorage c fs (fst (Sort c fs' compare d)) p = getFromStorage c fs d p"
  by (simp add: Sort_def getFromStorage_def retrieveFromDisk_def filePathForIndex_def
      split: prod.splits)

lemma precedes_upt: "p < q \<Longrightarrow> q < n \<Longrightarrow> precedes [0..<n] p q"
  unfolding precedes_iff by (rule exI [of _ p], rule exI [of _ q]) simp

lemma resorted_reachable: "reachable id_codec (fst resorted)"
  unfolding resorted_def by (intro reachable_Add reachable_Sort three_items_reachable)

lemma insertion_inner_cong:
  assumes eq: "\<And>ys i j. mset ys = M \<Longrightarrow> i < length ys \<Longrightarrow> j < length ys \<Longrightarrow> f ys i j = g ys i j"
  shows "mset xs = M \<Longrightarrow> j < length xs \<Longrightarrow>
         insertion_inner f a j (xs, calls) = insertion_inner g a j (xs, calls)"
proof (induction j arbitrary: xs calls)
  case 0
  show ?case by simp
next
  case (Suc j)
  have fg: "f xs (Suc j) j = g xs (Suc j) j"
    using Suc.prems by (intro eq) simp_all
  let ?ys = "xs[Suc j := xs ! j, j := xs ! Suc j]"
  have "mset ?ys = M" "j < length ?ys"
    using Suc.prems by (simp_all add: mset_swap)
  then have "insertion_inner f a j (?ys, cs) = insertion_inner g a j (?ys, cs)" for cs
    by (rule Suc.IH)
  with fg show ?case
    by (simp split: prod.splits bool.splits)
qed

lemma insertionSort_fold_cong:
  assumes eq: "\<And>ys i j. mset ys = M \<Longrightarrow> i < length ys \<Longrightarrow> j < length ys \<Longrightarrow> f ys i j = g ys i j"
  shows "mset (fst s) = M \<Longrightarrow> \<forall>i \<in> set is. i < length (fst s) \<Longrightarrow>
         fold (\<lambda>i. insertion_inner f a i) is s = fold (\<lambda>i. insertion_inner g a i) is s"
proof (induction "is" arbitrary: s)
  case Nil
  show ?case by simp
next
  case (Cons i "is")
  obtain xs calls where s: "s = (xs, calls)" by (cases s)
  have 1: "insertion_inner f a i s = insertion_inner g a i s"
    using Cons.prems insertion_inner_cong [where f = f and g = g and M = M, OF eq, of xs i a calls]
    by (simp add: s)
  have 2: "mset (fst (insertion_inner g a i s)) = M"
    using Cons.prems by (simp add: s insertion_inner_mset)
  have 3: "\<forall>k \<in> set is. k < length (fst (insertion_inner g a i s))"
    using Cons.prems by (simp add: s insertion_inner_length)
  from Cons.IH [OF 2 3] 1 show ?case by simp
qed

lemma SliceStable_cong:
  assumes "\<And>ys i j. mset ys = mset xs \<Longrightarrow> i < length ys \<Longrightarrow> j < length ys \<Longrightarrow> f ys i j = g ys i j"
  shows "SliceStable f xs = SliceStable g xs"
  using insertionSort_fold_cong [where f = f and g = g and M = "mset xs", OF assms,
      of "(xs, [])" "[0 + 1..<length xs]" 0]
  by (simp add: SliceStable_def insertionSort_def)

lemma Sort_reads_items_only:
  assumes "\<forall>p \<in> set (sortedIndexes d). fst (getFromStorage c fs d p) = fst (getFromStorage c fs' d p)"
  shows "Sort c fs compare d = Sort c fs' compare d"
proof -
  have "Sort_less c fs compare d ys i j = Sort_less c fs' compare d ys i j"
    if "mset ys = mset (sortedIndexes d)" "i < length ys" "j < length ys" for ys i j
  proof -
    from that have "ys ! i \<in> set (sortedIndexes d)" "ys ! j \<in> set (sortedIndexes d)"
      by (metis mset_eq_setD nth_mem)+
    with assms show ?thesis
      by (simp add: Sort_less_def)
  qed
  then have "SliceStable (Sort_less c fs compare d) (sortedIndexes d) =
             SliceStable (Sort_less c fs' compare d) (sortedIndexes d)"
    by (rule SliceStable_cong)
  then show ?thesis
    by (simp add: Sort_def)
qed

lemma Add_spill_error:
  "fst (Add_spill c item d fs) =
     (case mkdir_err fs (filepath_Dir (record_path (diskPath d) (totalCount d))) of
        Some e \<Rightarrow> Some (FailedToCreateDirectory e)
      | None \<Rightarrow>
          (case marshal c item of
             Inl e \<Rightarrow> Some (MarshalError e)
           | Inr data \<Rightarrow>
               (case create_err fs (record_path (diskPath d) (totalCount d)) of
                  Some e \<Rightarrow> Some (CreateError e)
                | None \<Rightarrow>
                    (case write_err fs (record_path (diskPath d) (totalCount d)) of
                       Some (n, e) \<Rightarrow> Some (WriteError e)
                     | None \<Rightarrow> None))))"
  by (auto simp: Add_spill_def filePathForIndex_def os_MkdirAll_def os_Create_def file_Write_def
      record_path_def Let_def split: prod.splits option.splits sum.splits)

lemma Add_error:
  "fst (Add c item (d, fs)) =
     (if int (length (memoryData d)) < maxInMemory d then None else fst (Add_spill c item d fs))"
  by (auto simp: Add_def split: prod.splits option.splits)

lemma Adds_append:
  "Adds c (pre @ rest) s =
     (case Adds c pre s of (None, s1) \<Rightarrow> Adds c rest s1 | (Some e, s1) \<Rightarrow> (Some e, s1))"
  by (induction pre arbitrary: s) (auto split: prod.splits option.splits)

lemma getFromStorage_error:
  "length (memoryData d) \<le> p \<Longrightarrow>
   snd (getFromStorage c fs d p) =
     (case os_ReadFile (record_path (diskPath d) p) fs of
        Inl e \<Rightarrow> Some (FailedToReadFromDisk e)
      | Inr data \<Rightarrow> map_option FailedToUnmarshal (snd (unmarshal c data (zero_value c))))"
  by (auto simp: getFromStorage_def retrieveFromDisk_def filePathForIndex_def record_path_def
      Let_def split: prod.splits option.splits sum.splits)

text \<open>The sort puts the index in order when the comparator is a strict weak ordering.\<close>

lemma gap_swap:
  assumes g: "gap lt xs a (Suc k) e" and ke: "Suc k \<le> e" and el: "e < length xs"
    and ak: "a < Suc k" and lt: "lt (xs ! Suc k) (xs ! k)"
  shows "gap lt (xs[Suc k := xs ! k, k := xs ! Suc k]) a k e"
proof -
  let ?ys = "xs[Suc k := xs ! k, k := xs ! Suc k]"
  have yk: "?ys ! k = xs ! Suc k" and ysk: "?ys ! Suc k = xs ! k"
    using ke el by (simp_all add: nth_list_update)
  have yo: "?ys ! m = xs ! m" if "m \<noteq> k" "m \<noteq> Suc k" for m
    using that by (simp add: nth_list_update)
  from g have S: "\<And>i j. a \<le> i \<Longrightarrow> i < j \<Longrightarrow> j \<le> e \<Longrightarrow> i \<noteq> Suc k \<Longrightarrow> j \<noteq> Suc k \<Longrightarrow> \<not> lt (xs ! j) (xs ! i)"
    and G: "\<And>m. Suc k < m \<Longrightarrow> m \<le> e \<Longrightarrow> lt (xs ! Suc k) (xs ! m)"
    unfolding gap_def by blast+
  have 1: "\<not> lt (?ys ! j) (?ys ! i)" if "a \<le> i" "i < j" "j \<le> e" "i \<noteq> k" "j \<noteq> k" for i j
  proof -
    consider (a) "i \<noteq> Suc k" "j \<noteq> Suc k" | (b) "j = Suc k" | (c) "i = Suc k"
      by blast
    then show ?thesis
    proof cases
      case a
      with that S [of i j] show ?thesis by (simp add: yo)
    next
      case b
      with that have "i < k" by simp
      with that ke S [of i k] have "\<not> lt (xs ! k) (xs ! i)" by simp
      with b that show ?thesis by (simp add: ysk yo)
    next
      case c
      with that ak S [of k j] have "\<not> lt (xs ! j) (xs ! k)" by simp
      with c that show ?thesis by (simp add: ysk yo)
    qed
  qed
  have 2: "lt (?ys ! k) (?ys ! m)" if "k < m" "m \<le> e" for m
  proof (cases "m = Suc k")
    case True
    with lt show ?thesis by (simp only: yk ysk)
  next
    case False
    with that G [of m] have "lt (xs ! Suc k) (xs ! m)" by simp
    with False that show ?thesis by (simp add: yk yo)
  qed
  from 1 2 show ?thesis
    unfolding gap_def by blast
qed

lemma gap_done:
  assumes swo: "strict_weak_order lt" and g: "gap lt xs a k e"
    and stop: "k \<le> a \<or> \<not> lt (xs ! k) (xs ! (k - 1))"
  shows "run_ordered lt xs a e"
proof -
  have asym: "\<And>x y. lt x y \<Longrightarrow> \<not> lt y x"
    and ntr: "\<And>x y z. \<not> lt x y \<Longrightarrow> \<not> lt y z \<Longrightarrow> \<not> lt x z"
    using swo unfolding strict_weak_order_def by blast+
  from g have S: "\<And>i j. a \<le> i \<Longrightarrow> i < j \<Longrightarrow> j \<le> e \<Longrightarrow> i \<noteq> k \<Longrightarrow> j \<noteq> k \<Longrightarrow> \<not> lt (xs ! j) (xs ! i)"
    and G: "\<And>m. k < m \<Longrightarrow> m \<le> e \<Longrightarrow> lt (xs ! k) (xs ! m)"
    unfolding gap_def by blast+
  have "\<not> lt (xs ! j) (xs ! i)" if "a \<le> i" "i < j" "j \<le> e" for i j
  proof -
    consider (a) "i \<noteq> k" "j \<noteq> k" | (b) "i = k" | (c) "j = k"
      by blast
    then show ?thesis
    proof cases
      case a
      with that S [of i j] show ?thesis by simp
    next
      case b
      with that G [of j] have "lt (xs ! k) (xs ! j)" by simp
      with b asym [of "xs ! k" "xs ! j"] show ?thesis by simp
    next
      case c
      with that stop have n: "\<not> lt (xs ! k) (xs ! (k - 1))" by simp
      show ?thesis
      proof (cases "i = k - 1")
        case True
        with n c show ?thesis by simp
      next
        case False
        with that c have "i < k - 1" "k - 1 < k" by simp_all
        with that c S [of i "k - 1"] have "\<not> lt (xs ! (k - 1)) (xs ! i)" by simp
        with n ntr [of "xs ! k" "xs ! (k - 1)" "xs ! i"] c show ?thesis by simp
      qed
    qed
  qed
  then show ?thesis
    unfolding run_ordered_def by blast
qed


lemma insertion_inner_gap:
  assumes less: "\<And>xs i j. fst (lessf xs i j) = lt (xs ! i) (xs ! j)"
    and swo: "strict_weak_order lt"
  shows "k \<le> e \<Longrightarrow> e < length xs \<Longrightarrow> gap lt xs a k e \<Longrightarrow>
         run_ordered lt (fst (insertion_inner lessf a k (xs, calls))) a e"
proof (induction k arbitrary: xs calls)
  case 0
  then show ?case
    using gap_done [OF swo, of xs a 0 e] by simp
next
  case (Suc k)
  obtain v call where l: "lessf xs (Suc k) k = (v, call)"
    by (cases "lessf xs (Suc k) k")
  with less [of xs "Suc k" k] have v: "v = lt (xs ! Suc k) (xs ! k)"
    by simp
  show ?case
  proof (cases "a < Suc k \<and> v")
    case True
    let ?ys = "xs[Suc k := xs ! k, k := xs ! Suc k]"
    from True v have "gap lt ?ys a k e"
      using gap_swap [OF Suc.prems(3) Suc.prems(1) Suc.prems(2)] by simp
    moreover have "k \<le> e" "e < length ?ys"
      using Suc.prems by simp_all
    ultimately have "run_ordered lt (fst (insertion_inner lessf a k (?ys, calls @ [call]))) a e"
      using Suc.IH by blast
    moreover have "insertion_inner lessf a (Suc k) (xs, calls) =
          insertion_inner lessf a k (?ys, calls @ [call])"
      using True l by simp
    ultimately show ?thesis
      by (simp only:)
  next
    case False
    then have r: "fst (insertion_inner lessf a (Suc k) (xs, calls)) = xs"
      using l by (auto split: bool.splits)
    from False v have "Suc k \<le> a \<or> \<not> lt (xs ! Suc k) (xs ! (Suc k - 1))"
      by auto
    from gap_done [OF swo Suc.prems(3) this] show ?thesis
      by (simp only: r)
  qed
qed

lemma run_ordered_gap:
  "run_ordered lt xs a e \<Longrightarrow> gap lt xs a (Suc e) (Suc e)"
  unfolding run_ordered_def gap_def by (metis Suc_leI le_neq_implies_less not_less_eq_eq)

lemma insertionSort_fold_ordered:
  assumes less: "\<And>xs i j. fst (lessf xs i j) = lt (xs ! i) (xs ! j)"
    and swo: "strict_weak_order lt"
  shows "b \<le> length (fst s) \<Longrightarrow> Suc e \<le> b \<Longrightarrow> run_ordered lt (fst s) a e \<Longrightarrow>
         run_ordered lt (fst (fold (\<lambda>i. insertion_inner lessf a i) [Suc e..<b] s)) a (b - 1)"
proof (induction "b - Suc e" arbitrary: e s)
  case 0
  then show ?case by simp
next
  case (Suc n)
  obtain xs calls where s: "s = (xs, calls)" by (cases s)
  from Suc.hyps(2) have lt: "Suc e < b" and n: "n = b - Suc (Suc e)"
    by simp_all
  have up: "[Suc e..<b] = Suc e # [Suc (Suc e)..<b]"
    using lt by (simp add: upt_conv_Cons)
  have "gap lt xs a (Suc e) (Suc e)"
    using Suc.prems(3) by (simp add: s run_ordered_gap)
  moreover have "Suc e < length xs"
    using lt Suc.prems(1) by (simp add: s)
  ultimately have 1: "run_ordered lt (fst (insertion_inner lessf a (Suc e) s)) a (Suc e)"
    using insertion_inner_gap [where lessf = lessf and lt = lt, OF less swo, of "Suc e" "Suc e" xs a calls]
    by (simp add: s)
  have 2: "b \<le> length (fst (insertion_inner lessf a (Suc e) s))"
    using Suc.prems(1) unfolding s by (simp only: insertion_inner_length fst_conv)
  have 3: "Suc (Suc e) \<le> b"
    using lt by simp
  from Suc.hyps(1) [OF n 2 3 1] show ?case
    by (simp add: up)
qed

lemma SliceStable_ordered:
  assumes less: "\<And>xs i j. fst (lessf xs i j) = lt (xs ! i) (xs ! j)"
    and swo: "strict_weak_order lt"
  shows "ordered_by lt (fst (SliceStable lessf xs))"
proof (cases "xs = []")
  case True
  then show ?thesis
    by (simp add: SliceStable_def insertionSort_def ordered_by_def)
next
  case False
  let ?ys = "fst (SliceStable lessf xs)"
  have len: "length ?ys = length xs"
    using insertionSort_fold_mset [of "[0 + 1..<length xs]" "(xs, [])" lessf 0]
    by (simp add: SliceStable_def insertionSort_def)
  have "run_ordered lt xs 0 0"
    by (simp add: run_ordered_def)
  with False have "run_ordered lt ?ys 0 (length xs - 1)"
    using insertionSort_fold_ordered [where lessf = lessf and lt = lt, OF less swo,
        of "length xs" "(xs, [])" 0 0]
    by (simp add: SliceStable_def insertionSort_def Suc_leI)
  then show ?thesis
    unfolding ordered_by_def run_ordered_def len by auto
qed

lemma Sort_orders_index:
  assumes swo: "strict_weak_order compare" and unsorted: "\<not> isSorted d"
  shows "ordered_by (\<lambda>p q. compare (fst (getFromStorage c fs d p)) (fst (getFromStorage c fs d q)))
           (sortedIndexes (fst (Sort c fs compare d)))"
proof -
  let ?lt = "\<lambda>p q. compare (fst (getFromStorage c fs d p)) (fst (getFromStorage c fs d q))"
  have 1: "fst (Sort_less c fs compare d xs i j) = ?lt (xs ! i) (xs ! j)" for xs i j
    by (simp add: Sort_less_def Let_def)
  have 2: "strict_weak_order ?lt"
    using swo unfolding strict_weak_order_def by blast
  have "ordered_by ?lt (fst (SliceStable (Sort_less c fs compare d) (sortedIndexes d)))"
    using 1 2 by (rule SliceStable_ordered [where lessf = "Sort_less c fs compare d" and lt = ?lt])
  moreover obtain ys calls where
    "SliceStable (Sort_less c fs compare d) (sortedIndexes d) = (ys, calls)"
    by (cases "SliceStable (Sort_less c fs compare d) (sortedIndexes d)")
  ultimately show ?thesis
    using unsorted by (simp add: Sort_def)
qed

subsection \<open>Claims\<close>

text \<open>
  C1. For a capacity \<open>C \<ge> 0\<close> and \<open>N\<close> successful \<^verbatim>\<open>Add\<close> calls on a fresh list
  (\<^verbatim>\<open>Adds\<close> that returns no error is exactly that), \<^verbatim>\<open>Size()\<close> returns \<open>N\<close>, the
  memory buffer holds the first \<open>C\<close> items in insertion order, \<open>min(N, C)\<close> of them,
  and the items of the positions \<open>C\<close> to \<open>N - 1\<close> were written as disk records: each
  position has its own file, which holds the encoded item, these are \<open>max(0, N - C)\<close>
  files, and no other file has changed.
\<close>

theorem Adds_fills_memory_then_disk:
  assumes new: "NewDBList path C = Returns d0"
    and adds: "Adds c items (d0, fs0) = (None, d, fs)"
  shows "Size d = length items \<and>
         memoryData d = take (nat C) items \<and>
         length (memoryData d) = min (length items) (nat C) \<and>
         (\<forall>p. nat C \<le> p \<and> p < length items \<longrightarrow>
            (\<exists>data. marshal c (items ! p) = Inr data \<and>
                    files fs (fst (filePathForIndex d p False fs)) = Some data)) \<and>
         (\<forall>q. q \<notin> (\<lambda>p. fst (filePathForIndex d p False fs)) ` {nat C..<length items} \<longrightarrow>
            files fs q = files fs0 q) \<and>
         card ((\<lambda>p. fst (filePathForIndex d p False fs)) ` {nat C..<length items}) =
           length items - nat C"
proof -
  from new have C: "0 \<le> C"
    and d0: "d0 = \<lparr>memoryData = [], diskPath = path, maxInMemory = C,
                   totalCount = 0, sortedIndexes = [], isSorted = True\<rparr>"
    by (auto simp: NewDBList_def split: if_splits)
  have "stored c path C fs0 [] (d0, fs0)"
    by (simp add: stored_def d0)
  from stored_Adds [OF C this adds] have st: "stored c path C fs0 items (d, fs)"
    by simp
  then have dp: "diskPath d = path"
    by (simp add: stored_def)
  have "inj_on (record_path path) {nat C..<length items}"
    by (simp add: inj_on_def record_path_eq)
  then have "card (record_path path ` {nat C..<length items}) = length items - nat C"
    by (simp add: card_image)
  with st dp show ?thesis
    by (simp add: stored_def Size_def filePathForIndex_path)
qed

theorem Adds_fills_memory_then_disk_witness:
  "NewDBList ''/tmp/db'' 1 = Returns new_list \<and>
   Adds id_codec [3, 1, 2] (new_list, quiet_fs) = (None, three_items) \<and>
   Size (fst three_items) = 3 \<and> memoryData (fst three_items) = [3] \<and>
   files (snd three_items) ''/tmp/db/0.json'' = None \<and>
   files (snd three_items) ''/tmp/db/1.json'' = Some ''1'' \<and>
   files (snd three_items) ''/tmp/db/2.json'' = Some ''2'' \<and>
   card ((\<lambda>p. fst (filePathForIndex (fst three_items) p False (snd three_items))) ` {1..<3}) = 2"
proof -
  have new: "NewDBList ''/tmp/db'' 1 = Returns new_list"
    by (simp add: NewDBList_def new_list_def)
  have "fst (Adds id_codec [3, 1, 2] (new_list, quiet_fs)) = None"
    by code_simp
  then have adds: "Adds id_codec [3, 1, 2] (new_list, quiet_fs) = (None, fst three_items, snd three_items)"
    unfolding three_items_def by (metis prod.collapse)
  have f: "files (snd three_items) ''/tmp/db/0.json'' = None"
    "files (snd three_items) ''/tmp/db/1.json'' = Some ''1''"
    "files (snd three_items) ''/tmp/db/2.json'' = Some ''2''"
    by code_simp+
  note t = Adds_fills_memory_then_disk [OF new adds]
  have h: "nat 1 = 1" "length [3, 1, 2::nat] = 3" "take 1 [3, 1, 2::nat] = [3]" "3 - 1 = (2::nat)"
    by simp_all
  from t have "Size (fst three_items) = length [3, 1, 2::nat]"
    and "memoryData (fst three_items) = take (nat 1) [3, 1, 2]"
    and "card ((\<lambda>p. fst (filePathForIndex (fst three_items) p False (snd three_items))) `
               {nat 1..<length [3, 1, 2::nat]}) = length [3, 1, 2::nat] - nat 1"
    by blast+
  then have "Size (fst three_items) = 3" and "memoryData (fst three_items) = [3]"
    and "card ((\<lambda>p. fst (filePathForIndex (fst three_items) p False (snd three_items))) ` {1..<3}) = 2"
    by (simp_all only: h)
  with new adds f show ?thesis
    by simp
qed

text \<open>
  C2. On every list a program can reach through \<^verbatim>\<open>NewDBList\<close>, \<^verbatim>\<open>Add\<close>,
  \<^verbatim>\<open>Adds\<close> and \<^verbatim>\<open>Sort\<close> (\<^verbatim>\<open>Get\<close> and \<^verbatim>\<open>Size\<close> assign nothing), the
  order index is as long as the total count and is a permutation of the numbers below it,
  without duplicate and without a value out of range; a successful \<^verbatim>\<open>Add\<close> appends
  exactly the new physical position, and \<^verbatim>\<open>Sort\<close> only permutes the entries.
\<close>

theorem order_index_is_permutation:
  "reachable c d \<Longrightarrow>
     length (sortedIndexes d) = totalCount d \<and> distinct (sortedIndexes d) \<and>
     set (sortedIndexes d) = {0..<totalCount d} \<and>
     (Add c item (d, fs) = (None, d', fs') \<longrightarrow>
        sortedIndexes d' = sortedIndexes d @ [totalCount d] \<and> totalCount d' = totalCount d + 1) \<and>
     mset (sortedIndexes (fst (Sort c fs compare d))) = mset (sortedIndexes d) \<and>
     totalCount (fst (Sort c fs compare d)) = totalCount d"
  using index_facts [OF reachable_index, of c d] Add_success [of c item d fs d' fs']
  by (simp add: Sort_mset Sort_totalCount)

theorem order_index_is_permutation_witness:
  "reachable id_codec (fst three_items) \<and>
   sortedIndexes (fst three_items) = [0, 1, 2] \<and> totalCount (fst three_items) = 3 \<and>
   fst (Add id_codec 7 three_items) = None \<and>
   sortedIndexes (fst (snd (Add id_codec 7 three_items))) = [0, 1, 2, 3] \<and>
   totalCount (fst (snd (Add id_codec 7 three_items))) = 4 \<and>
   sortedIndexes (fst (Sort id_codec (snd three_items) ascending (fst three_items))) = [1, 2, 0] \<and>
   mset (sortedIndexes (fst (Sort id_codec (snd three_items) ascending (fst three_items)))) = mset [0, 1, 2]"
proof -
  let ?r = "Add id_codec 7 three_items"
  have e: "fst ?r = None"
    by code_simp
  then have a: "Add id_codec 7 (fst three_items, snd three_items) = (None, fst (snd ?r), snd (snd ?r))"
    by (metis prod.collapse)
  from order_index_is_permutation [OF three_items_reachable, of 7 "snd three_items"
      "fst (snd ?r)" "snd (snd ?r)" ascending] a e three_items_list three_items_sorted
  have "sortedIndexes (fst three_items) = [0, 1, 2] \<and> totalCount (fst three_items) = 3 \<and>
    fst (Add id_codec 7 three_items) = None \<and>
    sortedIndexes (fst (snd (Add id_codec 7 three_items))) = [0, 1, 2, 3] \<and>
    totalCount (fst (snd (Add id_codec 7 three_items))) = 4 \<and>
    sortedIndexes (fst (Sort id_codec (snd three_items) ascending (fst three_items))) = [1, 2, 0] \<and>
    mset (sortedIndexes (fst (Sort id_codec (snd three_items) ascending (fst three_items)))) = mset [0, 1, 2]"
    by simp
  with three_items_reachable show ?thesis
    by blast
qed

text \<open>
  C3. On a list whose order index has \<open>N = totalCount\<close> entries, \<^verbatim>\<open>Get(i)\<close> fails
  with the index-out-of-range error exactly when \<open>i \<ge> N\<close>. For \<open>0 \<le> i < N\<close> it
  returns the item at the physical position \<open>p = sortedIndexes[i]\<close>: the element of the
  memory buffer when \<open>p\<close> is below the buffer's length, otherwise the decoded content of
  the disk record of \<open>p\<close>, failing with the read error when the file cannot be read and
  with the decode error when its bytes are malformed.
\<close>

theorem Get_by_logical_index:
  assumes "length (sortedIndexes d) = totalCount d"
  shows "((\<exists>item. Get c fs d i = Returns (item, Some IndexOutOfRange)) \<longleftrightarrow> int (totalCount d) \<le> i) \<and>
         (0 \<le> i \<and> i < int (totalCount d) \<longrightarrow>
            (let p = sortedIndexes d ! nat i in
             if p < length (memoryData d) then Get c fs d i = Returns (memoryData d ! p, None)
             else (case os_ReadFile (fst (filePathForIndex d p False fs)) fs of
                     Inl e \<Rightarrow> Get c fs d i = Returns (zero_value c, Some (FailedToReadFromDisk e))
                   | Inr data \<Rightarrow>
                       (case unmarshal c data (zero_value c) of
                          (item, Some e) \<Rightarrow> Get c fs d i = Returns (item, Some (FailedToUnmarshal e))
                        | (item, None) \<Rightarrow> Get c fs d i = Returns (item, None)))))"
  using assms
  by (auto simp: Get_def slice_index_def getFromStorage_def retrieveFromDisk_def
      filePathForIndex_read Let_def split: sum.splits prod.splits option.splits)

theorem Get_by_logical_index_witness:
  "length (sortedIndexes (fst three_items)) = totalCount (fst three_items) \<and>
   Get id_codec damaged_fs (fst three_items) 0 = Returns (3, None) \<and>
   Get id_codec damaged_fs (fst three_items) 1 = Returns (0, Some (FailedToUnmarshal ''invalid character'')) \<and>
   Get id_codec damaged_fs (fst three_items) 2 =
     Returns (0, Some (FailedToReadFromDisk ''no such file or directory'')) \<and>
   (\<exists>item. Get id_codec damaged_fs (fst three_items) 3 = Returns (item, Some IndexOutOfRange)) \<and>
   Get id_codec (snd three_items) (fst three_items) 1 = Returns (1, None)"
proof -
  let ?d = "fst three_items"
  have len: "length (sortedIndexes ?d) = totalCount ?d"
    by (simp add: three_items_list)
  have r1: "os_ReadFile (fst (filePathForIndex ?d 1 False damaged_fs)) damaged_fs = Inr ''x''"
    by code_simp
  have r2: "os_ReadFile (fst (filePathForIndex ?d 2 False damaged_fs)) damaged_fs =
            Inl ''no such file or directory''"
    by code_simp
  have r3: "os_ReadFile (fst (filePathForIndex ?d 1 False (snd three_items))) (snd three_items) = Inr ''1''"
    by code_simp
  have u1: "unmarshal id_codec ''x'' (zero_value id_codec) = (0, Some ''invalid character'')"
    by code_simp
  have u2: "unmarshal id_codec ''1'' (zero_value id_codec) = (1, None)"
    by code_simp
  have z: "zero_value id_codec = 0"
    by (simp add: id_codec_def)
  have g0: "Get id_codec damaged_fs ?d 0 = Returns (3, None)"
    using Get_by_logical_index [OF len, of id_codec damaged_fs 0] by (simp add: three_items_list)
  have g1: "Get id_codec damaged_fs ?d 1 = Returns (0, Some (FailedToUnmarshal ''invalid character''))"
    using Get_by_logical_index [OF len, of id_codec damaged_fs 1] r1 u1
    by (simp add: three_items_list)
  have g2: "Get id_codec damaged_fs ?d 2 =
            Returns (0, Some (FailedToReadFromDisk ''no such file or directory''))"
    using Get_by_logical_index [OF len, of id_codec damaged_fs 2] r2 z
    by (simp add: three_items_list)
  have g3: "\<exists>item. Get id_codec damaged_fs ?d 3 = Returns (item, Some IndexOutOfRange)"
    using Get_by_logical_index [OF len, of id_codec damaged_fs 3] by (simp add: three_items_list)
  have g4: "Get id_codec (snd three_items) ?d 1 = Returns (1, None)"
    using Get_by_logical_index [OF len, of id_codec "snd three_items" 1] r3 u2
    by (simp add: three_items_list)
  from len g0 g1 g2 g3 g4 show ?thesis
    by blast
qed

text \<open>
  C4, as amended. \<^verbatim>\<open>Sort\<close> is stable with respect to the order index it starts from:
  two positions whose items tie under the comparator, neither sorting before the other,
  keep after \<^verbatim>\<open>Sort\<close> the relative order they had in the order index before the call.
  That is the order of insertion when no earlier \<^verbatim>\<open>Sort\<close> has reordered the index,
  which then still is \<open>0, 1, ..., totalCount - 1\<close>. The comparator sees the items as
  \<^verbatim>\<open>getFromStorage\<close> returns them.
\<close>

theorem Sort_stable_on_prior_order:
  "(\<forall>p q. \<not> compare (fst (getFromStorage c fs d p)) (fst (getFromStorage c fs d q)) \<and>
           \<not> compare (fst (getFromStorage c fs d q)) (fst (getFromStorage c fs d p)) \<and>
           precedes (sortedIndexes d) p q \<longrightarrow>
           precedes (sortedIndexes (fst (Sort c fs compare d))) p q) \<and>
   (sortedIndexes d = [0..<totalCount d] \<longrightarrow>
      keeps_insertion_order compare c fs (fst (Sort c fs compare d)))"
proof (intro conjI allI impI)
  fix p q
  assume "\<not> compare (fst (getFromStorage c fs d p)) (fst (getFromStorage c fs d q)) \<and>
          \<not> compare (fst (getFromStorage c fs d q)) (fst (getFromStorage c fs d p)) \<and>
          precedes (sortedIndexes d) p q"
  then show "precedes (sortedIndexes (fst (Sort c fs compare d))) p q"
    by (simp add: Sort_precedes)
next
  assume id: "sortedIndexes d = [0..<totalCount d]"
  show "keeps_insertion_order compare c fs (fst (Sort c fs compare d))"
    unfolding keeps_insertion_order_def getFromStorage_Sort Sort_totalCount
  proof (intro ballI impI)
    fix q p
    assume q: "q \<in> {0..<totalCount d}" and p: "p \<in> {0..<q}"
      and tie: "\<not> compare (fst (getFromStorage c fs d p)) (fst (getFromStorage c fs d q)) \<and>
                \<not> compare (fst (getFromStorage c fs d q)) (fst (getFromStorage c fs d p))"
    from p q have "precedes (sortedIndexes d) p q"
      by (simp add: id precedes_upt)
    with tie show "precedes (sortedIndexes (fst (Sort c fs compare d))) p q"
      by (simp add: Sort_precedes)
  qed
qed

theorem Sort_stable_on_prior_order_witness:
  "sortedIndexes (fst four_items) = [0..<totalCount (fst four_items)] \<and>
   keeps_insertion_order by_tens id_codec (snd four_items)
     (fst (Sort id_codec (snd four_items) by_tens (fst four_items))) \<and>
   sortedIndexes (fst (Sort id_codec (snd four_items) by_tens (fst four_items))) = [1, 3, 0, 2] \<and>
   map (\<lambda>p. fst (getFromStorage id_codec (snd four_items) (fst four_items) p)) [1, 3, 0, 2] =
     [10, 13, 21, 25]"
proof -
  have id: "sortedIndexes (fst four_items) = [0..<totalCount (fst four_items)]"
    by code_simp
  have s: "sortedIndexes (fst (Sort id_codec (snd four_items) by_tens (fst four_items))) = [1, 3, 0, 2]"
    by code_simp
  have m: "map (\<lambda>p. fst (getFromStorage id_codec (snd four_items) (fst four_items) p)) [1, 3, 0, 2] =
     [10, 13, 21, 25]"
    by code_simp
  from Sort_stable_on_prior_order [of by_tens id_codec "snd four_items" "fst four_items"] id
  have "keeps_insertion_order by_tens id_codec (snd four_items)
     (fst (Sort id_codec (snd four_items) by_tens (fst four_items)))"
    by blast
  with id s m show ?thesis
    by blast
qed

text \<open>
  C4 as stated, with respect to insertion order, fails. Insert 3, 1, 2; sort by ascending
  value, which gives the order index \<open>1, 2, 0\<close>; insert 5; sort with a comparator
  under which all items tie. The second \<^verbatim>\<open>Sort\<close> runs, makes its three comparisons and
  leaves the index at \<open>1, 2, 0, 3\<close>: the items of the positions 0 and 1 tie, yet
  position 1 stands before position 0.
\<close>

theorem Sort_insertion_order_counterexample:
  "reachable id_codec (fst resorted) \<and>
   sortedIndexes (fst (Sort id_codec (snd resorted) all_equal (fst resorted))) = [1, 2, 0, 3] \<and>
   snd (Sort id_codec (snd resorted) all_equal (fst resorted)) = [(2, 1), (3, 2), (5, 3)] \<and>
   \<not> keeps_insertion_order all_equal id_codec (snd resorted)
       (fst (Sort id_codec (snd resorted) all_equal (fst resorted)))"
proof -
  have "sortedIndexes (fst (Sort id_codec (snd resorted) all_equal (fst resorted))) = [1, 2, 0, 3]"
    by code_simp
  moreover have "snd (Sort id_codec (snd resorted) all_equal (fst resorted)) = [(2, 1), (3, 2), (5, 3)]"
    by code_simp
  moreover have "\<not> keeps_insertion_order all_equal id_codec (snd resorted)
       (fst (Sort id_codec (snd resorted) all_equal (fst resorted)))"
    by code_simp
  ultimately show ?thesis
    using resorted_reachable by blast
qed

text \<open>
  C5. \<^verbatim>\<open>Add\<close> is all-or-nothing for the list: when \<^verbatim>\<open>Add(item)\<close> returns an
  error (from creating the directory, encoding, creating the file or writing it), the
  total count, the order index, the sorted flag and the memory buffer are what they were
  before the call; indeed no field of the list has changed.
\<close>

theorem Add_error_changes_nothing:
  "Add c item (d, fs) = (Some err, d', fs') \<Longrightarrow>
     totalCount d' = totalCount d \<and> sortedIndexes d' = sortedIndexes d \<and>
     isSorted d' = isSorted d \<and> memoryData d' = memoryData d \<and> d' = d"
  by (auto simp: Add_def split: if_splits prod.splits option.splits)

theorem Add_error_changes_nothing_witness:
  "fst (Add id_codec 7 (fst three_items, read_only_fs)) = Some (CreateError ''permission denied'') \<and>
   fst (snd (Add id_codec 7 (fst three_items, read_only_fs))) = fst three_items"
proof -
  let ?r = "Add id_codec 7 (fst three_items, read_only_fs)"
  have e: "fst ?r = Some (CreateError ''permission denied'')"
    by code_simp
  then have "?r = (Some (CreateError ''permission denied''), fst (snd ?r), snd (snd ?r))"
    by (metis prod.collapse)
  from Add_error_changes_nothing [OF this] e show ?thesis
    by simp
qed

text \<open>
  C6. \<^verbatim>\<open>Sort\<close> is idempotent: a second \<^verbatim>\<open>Sort(cmp)\<close> right after the first, with
  no insertion in between, returns the list as the first left it and calls the
  comparator not once; and whenever the sorted flag is set, \<^verbatim>\<open>Sort\<close> makes no
  comparison and leaves the list, so the order index, as it is.
\<close>

theorem Sort_idempotent:
  "Sort c fs' compare (fst (Sort c fs compare d)) = (fst (Sort c fs compare d), []) \<and>
   (isSorted d \<longrightarrow> Sort c fs compare d = (d, []))"
  by (simp add: Sort_when_sorted Sort_isSorted)

theorem Sort_idempotent_witness:
  "Sort id_codec (snd three_items) ascending
     (fst (Sort id_codec (snd three_items) ascending (fst three_items))) =
     (fst (Sort id_codec (snd three_items) ascending (fst three_items)), []) \<and>
   sortedIndexes (fst (Sort id_codec (snd three_items) ascending (fst three_items))) = [1, 2, 0] \<and>
   isSorted new_list \<and> Sort id_codec quiet_fs ascending new_list = (new_list, [])"
proof -
  have "isSorted new_list"
    by (simp add: new_list_def)
  with Sort_idempotent [of id_codec "snd three_items" ascending "snd three_items" "fst three_items"]
    Sort_idempotent [of id_codec quiet_fs ascending quiet_fs new_list] three_items_sorted
  show ?thesis
    by simp
qed

text \<open>
  C7, as amended. \<^verbatim>\<open>Add\<close>, \<^verbatim>\<open>Adds\<close> and \<^verbatim>\<open>Get\<close> hand every failure of the
  filesystem and of the encoder or decoder to their caller: on the spill path \<^verbatim>\<open>Add\<close>
  returns the first failure among creating the directory, encoding, creating the file
  and writing it (the result of closing the file is not looked at); \<^verbatim>\<open>Adds\<close> returns
  the error of the first \<^verbatim>\<open>Add\<close> that fails; \<^verbatim>\<open>Get\<close> returns what
  \<^verbatim>\<open>getFromStorage\<close> returns, whose error is the read failure or the decode failure.
  \<^verbatim>\<open>Sort\<close> has no error result: what it returns depends only on the items that
  \<^verbatim>\<open>getFromStorage\<close> hands back for the positions of the order index, not on the
  errors that come with them.
\<close>

theorem errors_surface_except_in_Sort:
  "(\<not> int (length (memoryData d)) < maxInMemory d \<longrightarrow>
      fst (Add c item (d, fs)) =
        (case mkdir_err fs (filepath_Dir (record_path (diskPath d) (totalCount d))) of
           Some e \<Rightarrow> Some (FailedToCreateDirectory e)
         | None \<Rightarrow>
             (case marshal c item of
                Inl e \<Rightarrow> Some (MarshalError e)
              | Inr data \<Rightarrow>
                  (case create_err fs (record_path (diskPath d) (totalCount d)) of
                     Some e \<Rightarrow> Some (CreateError e)
                   | None \<Rightarrow>
                       (case write_err fs (record_path (diskPath d) (totalCount d)) of
                          Some (n, e) \<Rightarrow> Some (WriteError e)
                        | None \<Rightarrow> None))))) \<and>
   (Adds c pre s = (None, s1) \<and> Add c item s1 = (Some err, s2) \<longrightarrow>
      Adds c (pre @ item # post) s = (Some err, s2)) \<and>
   (0 \<le> i \<and> i < int (length (sortedIndexes d)) \<longrightarrow>
      Get c fs d i = Returns (getFromStorage c fs d (sortedIndexes d ! nat i))) \<and>
   (length (memoryData d) \<le> p \<longrightarrow>
      snd (getFromStorage c fs d p) =
        (case os_ReadFile (record_path (diskPath d) p) fs of
           Inl e \<Rightarrow> Some (FailedToReadFromDisk e)
         | Inr data \<Rightarrow> map_option FailedToUnmarshal (snd (unmarshal c data (zero_value c))))) \<and>
   ((\<forall>p \<in> set (sortedIndexes d).
        fst (getFromStorage c fs d p) = fst (getFromStorage c fs' d p)) \<longrightarrow>
      Sort c fs compare d = Sort c fs' compare d)"
proof (intro conjI impI)
  assume "\<not> int (length (memoryData d)) < maxInMemory d"
  then show "fst (Add c item (d, fs)) =
        (case mkdir_err fs (filepath_Dir (record_path (diskPath d) (totalCount d))) of
           Some e \<Rightarrow> Some (FailedToCreateDirectory e)
         | None \<Rightarrow>
             (case marshal c item of
                Inl e \<Rightarrow> Some (MarshalError e)
              | Inr data \<Rightarrow>
                  (case create_err fs (record_path (diskPath d) (totalCount d)) of
                     Some e \<Rightarrow> Some (CreateError e)
                   | None \<Rightarrow>
                       (case write_err fs (record_path (diskPath d) (totalCount d)) of
                          Some (n, e) \<Rightarrow> Some (WriteError e)
                        | None \<Rightarrow> None))))"
    by (simp only: Add_error Add_spill_error if_False)
next
  assume "Adds c pre s = (None, s1) \<and> Add c item s1 = (Some err, s2)"
  then show "Adds c (pre @ item # post) s = (Some err, s2)"
    by (simp add: Adds_append)
next
  assume "0 \<le> i \<and> i < int (length (sortedIndexes d))"
  then show "Get c fs d i = Returns (getFromStorage c fs d (sortedIndexes d ! nat i))"
    by (simp add: Get_def slice_index_def)
next
  assume "length (memoryData d) \<le> p"
  then show "snd (getFromStorage c fs d p) =
        (case os_ReadFile (record_path (diskPath d) p) fs of
           Inl e \<Rightarrow> Some (FailedToReadFromDisk e)
         | Inr data \<Rightarrow> map_option FailedToUnmarshal (snd (unmarshal c data (zero_value c))))"
    by (rule getFromStorage_error)
next
  assume "\<forall>p \<in> set (sortedIndexes d).
        fst (getFromStorage c fs d p) = fst (getFromStorage c fs' d p)"
  then show "Sort c fs compare d = Sort c fs' compare d"
    by (rule Sort_reads_items_only)
qed

theorem errors_surface_except_in_Sort_witness:
  "fst (Add id_codec 7 (fst three_items, read_only_fs)) = Some (CreateError ''permission denied'') \<and>
   fst (Adds id_codec [7, 8] (fst three_items, read_only_fs)) = Some (CreateError ''permission denied'') \<and>
   Get id_codec lost_2_fs (fst three_items) 2 =
     Returns (0, Some (FailedToReadFromDisk ''no such file or directory'')) \<and>
   Sort id_codec lost_2_fs ascending (fst three_items) =
     Sort id_codec zero_2_fs ascending (fst three_items)"
proof -
  let ?d = "fst three_items"
  let ?p = "record_path (diskPath ?d) (totalCount ?d)"
  note t = errors_surface_except_in_Sort
  have full: "\<not> int (length (memoryData ?d)) < maxInMemory ?d"
    by (simp add: three_items_list)
  have o: "mkdir_err read_only_fs (filepath_Dir ?p) = None"
    "marshal id_codec 7 = Inr ''7''" "create_err read_only_fs ?p = Some ''permission denied''"
    by code_simp+
  from t [where d = ?d and c = id_codec and item = 7 and fs = read_only_fs] full o
  have a: "fst (Add id_codec 7 (?d, read_only_fs)) = Some (CreateError ''permission denied'')"
    by simp
  then have a': "Add id_codec 7 (?d, read_only_fs) =
      (Some (CreateError ''permission denied''), snd (Add id_codec 7 (?d, read_only_fs)))"
    by (metis prod.collapse)
  have "Adds id_codec [] (?d, read_only_fs) = (None, ?d, read_only_fs) \<and>
        Add id_codec 7 (?d, read_only_fs) =
          (Some (CreateError ''permission denied''), snd (Add id_codec 7 (?d, read_only_fs)))"
    by (rule conjI) (simp, rule a')
  with t [where c = id_codec and item = 7 and pre = "[]" and s = "(?d, read_only_fs)"
      and ?s1.0 = "(?d, read_only_fs)" and err = "CreateError ''permission denied''"
      and ?s2.0 = "snd (Add id_codec 7 (?d, read_only_fs))" and post = "[8]"]
  have "Adds id_codec ([] @ 7 # [8]) (?d, read_only_fs) =
          (Some (CreateError ''permission denied''), snd (Add id_codec 7 (?d, read_only_fs)))"
    by blast
  then have b: "fst (Adds id_codec [7, 8] (?d, read_only_fs)) = Some (CreateError ''permission denied'')"
    by (simp only: append_Nil fst_conv)
  have r: "os_ReadFile (record_path (diskPath ?d) 2) lost_2_fs = Inl ''no such file or directory''"
    by code_simp
  have z: "fst (getFromStorage id_codec lost_2_fs ?d 2) = 0"
    by code_simp
  from t [where d = ?d and c = id_codec and fs = lost_2_fs and p = 2] r
  have "snd (getFromStorage id_codec lost_2_fs ?d 2) =
        Some (FailedToReadFromDisk ''no such file or directory'')"
    by (simp add: three_items_list)
  with z have g: "getFromStorage id_codec lost_2_fs ?d 2 =
        (0, Some (FailedToReadFromDisk ''no such file or directory''))"
    by (metis prod.collapse)
  from t [where d = ?d and c = id_codec and fs = lost_2_fs and i = 2] g
  have c: "Get id_codec lost_2_fs ?d 2 =
     Returns (0, Some (FailedToReadFromDisk ''no such file or directory''))"
    by (simp add: three_items_list)
  have "\<forall>p \<in> set (sortedIndexes ?d).
        fst (getFromStorage id_codec lost_2_fs ?d p) = fst (getFromStorage id_codec zero_2_fs ?d p)"
    by code_simp
  with t [where d = ?d and c = id_codec and fs = lost_2_fs and fs' = zero_2_fs
      and compare = ascending]
  have s: "Sort id_codec lost_2_fs ascending ?d = Sort id_codec zero_2_fs ascending ?d"
    by blast
  from a b c s show ?thesis
    by blast
qed

text \<open>
  C7 as stated fails in \<^verbatim>\<open>Sort\<close>. With the record of position 2 deleted, the read
  that the comparisons make for that position fails; \<^verbatim>\<open>Sort\<close> compares the zero value
  in its place, ranks position 2 first and sets the sorted flag, and what it returns is
  exactly what it returns on a filesystem whose record 2 holds an encoded \<open>0\<close> and on
  which no read fails.
\<close>

theorem Sort_drops_read_errors_counterexample:
  "snd (getFromStorage id_codec lost_2_fs (fst three_items) 2) =
     Some (FailedToReadFromDisk ''no such file or directory'') \<and>
   Sort id_codec lost_2_fs ascending (fst three_items) =
     ((fst three_items)\<lparr>sortedIndexes := [2, 1, 0], isSorted := True\<rparr>, [(1, 3), (0, 3), (0, 1)]) \<and>
   Sort id_codec zero_2_fs ascending (fst three_items) =
     Sort id_codec lost_2_fs ascending (fst three_items) \<and>
   snd (getFromStorage id_codec zero_2_fs (fst three_items) 2) = None \<and>
   sortedIndexes (fst (Sort id_codec (snd three_items) ascending (fst three_items))) = [1, 2, 0]"
  by (intro conjI; code_simp)

text \<open>
  C8. Iteration does not fail on a bad record. On a list of \<open>N\<close> items, with a context
  that is not cancelled, \<^verbatim>\<open>Iterator\<close> sends, in ascending logical order, exactly the
  items of the indices at which \<^verbatim>\<open>Get\<close> succeeds, \<open>N\<close> minus the number of failing
  indices in all, and logs one message for each failing index; \<^verbatim>\<open>Get\<close> fails there
  with a read error or a decode error. With 50 items of which only the record of index 30
  is unreadable, 49 items are sent and the one message names index 30.
\<close>

theorem Iterator_skips_failures:
  assumes len: "length (sortedIndexes d) = totalCount d"
    and live: "\<forall>k<totalCount d. \<not> ctx_err cx k \<and> \<not> ctx_done cx k"
  shows "Iterator c fs d cx =
           Returns (List.map_filter (yielded_at c fs d) [0..<totalCount d],
                    map load_failure (filter (\<lambda>i. yielded_at c fs d i = None) [0..<totalCount d])) \<and>
         length (List.map_filter (yielded_at c fs d) [0..<totalCount d]) =
           totalCount d - card {i. i < totalCount d \<and> yielded_at c fs d i = None} \<and>
         length (filter (\<lambda>i. yielded_at c fs d i = None) [0..<totalCount d]) =
           card {i. i < totalCount d \<and> yielded_at c fs d i = None} \<and>
         (\<forall>i<totalCount d. \<forall>item.
            yielded_at c fs d i = Some item \<longleftrightarrow> Get c fs d (int i) = Returns (item, None)) \<and>
         (\<forall>i<totalCount d.
            yielded_at c fs d i = None \<longleftrightarrow>
              (\<exists>item e. Get c fs d (int i) = Returns (item, Some (FailedToReadFromDisk e)) \<or>
                        Get c fs d (int i) = Returns (item, Some (FailedToUnmarshal e))))"
proof -
  let ?S = "{i. i < totalCount d \<and> yielded_at c fs d i = None}"
  have run: "Iterator c fs d cx =
           Returns (List.map_filter (yielded_at c fs d) [0..<totalCount d],
                    map load_failure (filter (\<lambda>i. yielded_at c fs d i = None) [0..<totalCount d]))"
    using Iterator_loop_run [OF len live, of 0 c fs "[]" "[]"] by (simp add: Iterator_def)
  have "set (filter (\<lambda>i. yielded_at c fs d i = None) [0..<totalCount d]) = ?S"
    by auto
  then have failed: "length (filter (\<lambda>i. yielded_at c fs d i = None) [0..<totalCount d]) = card ?S"
    by (metis distinct_card distinct_filter distinct_upt)
  have sent: "length (List.map_filter (yielded_at c fs d) [0..<totalCount d]) = totalCount d - card ?S"
    using length_map_filter [of "yielded_at c fs d" "[0..<totalCount d]"] failed by simp
  show ?thesis
    using run sent failed len by (simp add: yielded_at_Some Get_failure_kinds)
qed


theorem Iterator_skips_failures_witness:
  "Iterator id_codec lost_30_fs (fst fifty_items) background =
     Returns (map (\<lambda>i. 100 + i) ([0..<30] @ [31..<50]), [''DBList failed to load index 30'']) \<and>
   length (map (\<lambda>i. 100 + i) ([0..<30] @ [31..<50])) = 49 \<and>
   totalCount (fst fifty_items) = 50"
proof -
  let ?d = "fst fifty_items"
  have len: "length (sortedIndexes ?d) = totalCount ?d"
    by code_simp
  have live: "\<forall>k<totalCount ?d. \<not> ctx_err background k \<and> \<not> ctx_done background k"
    by (simp add: background_def)
  have sent: "List.map_filter (yielded_at id_codec lost_30_fs ?d) [0..<totalCount ?d] =
              map (\<lambda>i. 100 + i) ([0..<30] @ [31..<50])"
    by code_simp
  have logged: "map load_failure
                  (filter (\<lambda>i. yielded_at id_codec lost_30_fs ?d i = None) [0..<totalCount ?d]) =
                [''DBList failed to load index 30'']"
    by code_simp
  have n: "totalCount ?d = 50"
    by code_simp
  from Iterator_skips_failures [OF len live, of id_codec lost_30_fs]
  have "Iterator id_codec lost_30_fs ?d background =
          Returns (List.map_filter (yielded_at id_codec lost_30_fs ?d) [0..<totalCount ?d],
                   map load_failure
                     (filter (\<lambda>i. yielded_at id_codec lost_30_fs ?d i = None) [0..<totalCount ?d]))"
    by blast
  with sent logged n show ?thesis
    by simp
qed

text \<open>
  C9. No operation is fatal, whatever the argument. The code breaks this: \<^verbatim>\<open>Get\<close>
  checks its index against the length of the order index only from above, so every
  negative index reaches \<^verbatim>\<open>d.sortedIndexes[index]\<close> and the call panics instead of
  returning an error.
\<close>

theorem Get_negative_index_panics:
  "index < 0 \<Longrightarrow> Get c fs d index = Panics"
  by (simp add: Get_def slice_index_def)

theorem Get_negative_index_panics_witness:
  "Get id_codec (snd three_items) (fst three_items) (- 1) = Panics"
  using Get_negative_index_panics [of "- 1" id_codec "snd three_items" "fst three_items"]
  by simp

text \<open>
  C10. The sorted flag does not say which comparator was used: after a completed
  \<^verbatim>\<open>Sort(cmpA)\<close> and no \<^verbatim>\<open>Add\<close>, a \<^verbatim>\<open>Sort(cmpB)\<close> with any comparator returns
  at once, calls \<open>cmpB\<close> not once and leaves the order index and every other field
  as they are.
\<close>

theorem Sort_keeps_first_comparator:
  "Sort c fs' compareB (fst (Sort c fs compareA d)) = (fst (Sort c fs compareA d), []) \<and>
   sortedIndexes (fst (Sort c fs' compareB (fst (Sort c fs compareA d)))) =
     sortedIndexes (fst (Sort c fs compareA d))"
  by (simp add: Sort_when_sorted Sort_isSorted)

theorem Sort_keeps_first_comparator_witness:
  "sortedIndexes (fst (Sort id_codec (snd three_items) descending
     (fst (Sort id_codec (snd three_items) ascending (fst three_items))))) = [1, 2, 0] \<and>
   sortedIndexes (fst (Sort id_codec (snd three_items) descending (fst three_items))) = [0, 2, 1]"
proof -
  have "sortedIndexes (fst (Sort id_codec (snd three_items) descending (fst three_items))) = [0, 2, 1]"
    by code_simp
  with Sort_keeps_first_comparator
    [of id_codec "snd three_items" descending "snd three_items" ascending "fst three_items"]
    three_items_sorted
  show ?thesis
    by simp
qed

end
